theory Spec2Isabelle
  imports Main "HOL-Library.Word" "HOL-Library.Extended_Nat" "HOL-Library.Sublist"
begin

section \<open>Bytes, typed-array slices and rank-table keys\<close>

text \<open>
  A \<^verbatim>\<open>Uint8Array\<close> is a list of 8-bit words. The rank table is a JavaScript
  \<^verbatim>\<open>Map<string, number>\<close>: its entries in insertion order, keyed by the base64
  text of a byte sequence (\<^verbatim>\<open>BytePairEncoder.bytesToKey\<close>). \<^verbatim>\<open>Map.get\<close> is
  \<open>map_of\<close>; a \<^verbatim>\<open>Map\<close> holds every key once, which is the hypothesis
  \<open>distinct (map fst ranks)\<close> wherever a theorem depends on it.
\<close>

type_synonym byte = "8 word"

type_synonym rank_table = "(string \<times> nat) list"

definition ranks_get :: "rank_table \<Rightarrow> string \<Rightarrow> nat option" where
  "ranks_get ranks key = map_of ranks key"

text \<open>
  \<^verbatim>\<open>piece.slice(start, end)\<close> of a typed array: a negative index counts from the
  end, both indices are clamped to the array, and an empty range gives the empty array.
\<close>

definition slice :: "'a list \<Rightarrow> int \<Rightarrow> int \<Rightarrow> 'a list" where
  "slice xs start stop =
     (let len = int (length xs);
          k = (if start < 0 then max (len + start) 0 else min start len);
          final = (if stop < 0 then max (len + stop) 0 else min stop len)
      in take (nat (final - k)) (drop (nat k) xs))"

subsection \<open>The host's base64 functions\<close>

text \<open>
  \<^verbatim>\<open>btoa\<close> and \<^verbatim>\<open>atob\<close> belong to the host, not to the repository; they are
  written out here after the HTML standard (base64 with padding; forgiving-base64
  decode). \<^verbatim>\<open>bytesToKey\<close> first turns the bytes into a string of code units below
  256, which is the only kind of string \<^verbatim>\<open>btoa\<close> accepts, so \<open>btoa\<close> takes the
  bytes themselves.
\<close>

definition b64_alphabet :: string where
  "b64_alphabet = ''ABCDEFGHIJKLMNOPQRSTUVWXYZabcdefghijklmnopqrstuvwxyz0123456789+/''"

definition b64_char :: "nat \<Rightarrow> char" where
  "b64_char n = b64_alphabet ! n"

definition b64_index :: "char \<Rightarrow> nat option" where
  "b64_index c = map_of (zip b64_alphabet [0..<64]) c"

fun btoa :: "byte list \<Rightarrow> string" where
  "btoa (a # b # c # rest) =
     (let n = unat a * 65536 + unat b * 256 + unat c
      in b64_char (n div 262144) # b64_char (n div 4096 mod 64) #
         b64_char (n div 64 mod 64) # b64_char (n mod 64) # btoa rest)"
| "btoa [a, b] =
     (let n = unat a * 65536 + unat b * 256
      in [b64_char (n div 262144), b64_char (n div 4096 mod 64),
          b64_char (n div 64 mod 64), CHR ''='']) "
| "btoa [a] =
     (let n = unat a * 65536
      in [b64_char (n div 262144), b64_char (n div 4096 mod 64), CHR ''='', CHR ''=''])"
| "btoa [] = []"

definition ascii_whitespace :: "char list" where
  "ascii_whitespace = [CHR 0x09, CHR 0x0A, CHR 0x0C, CHR 0x0D, CHR 0x20]"

definition strip_padding :: "string \<Rightarrow> string" where
  "strip_padding d =
     (if length d mod 4 = 0
      then (case rev d of
              e1 # e2 # r \<Rightarrow>
                (if e1 = CHR ''='' \<and> e2 = CHR ''='' then rev r
                 else if e1 = CHR ''='' then rev (e2 # r) else d)
            | _ \<Rightarrow> d)
      else d)"

fun b64_bytes :: "nat list \<Rightarrow> byte list" where
  "b64_bytes (i1 # i2 # i3 # i4 # rest) =
     (let n = ((i1 * 64 + i2) * 64 + i3) * 64 + i4
      in of_nat (n div 65536) # of_nat (n div 256 mod 256) # of_nat (n mod 256) #
         b64_bytes rest)"
| "b64_bytes [i1, i2, i3] =
     (let n = ((i1 * 64 + i2) * 64 + i3) div 4
      in [of_nat (n div 256), of_nat (n mod 256)])"
| "b64_bytes [i1, i2] = [of_nat ((i1 * 64 + i2) div 16)]"
| "b64_bytes _ = []"

fun b64_indices :: "string \<Rightarrow> nat list option" where
  "b64_indices [] = Some []"
| "b64_indices (c # cs) =
     (case b64_index c of
        None \<Rightarrow> None
      | Some i \<Rightarrow> (case b64_indices cs of None \<Rightarrow> None | Some is \<Rightarrow> Some (i # is)))"

text \<open>\<open>None\<close> is the \<^verbatim>\<open>InvalidCharacterError\<close> that \<^verbatim>\<open>atob\<close> throws.\<close>

definition atob :: "string \<Rightarrow> byte list option" where
  "atob data =
     (let d = strip_padding (filter (\<lambda>c. c \<notin> set ascii_whitespace) data)
      in if length d mod 4 = 1 then None
         else (case b64_indices d of None \<Rightarrow> None | Some is \<Rightarrow> Some (b64_bytes is)))"

definition bytesToKey :: "byte list \<Rightarrow> string" where
  "bytesToKey bytes = btoa bytes"

definition keyToBytes :: "string \<Rightarrow> byte list option" where
  "keyToBytes key = atob key"

section \<open>The pair-merge engine (\<^verbatim>\<open>src/core/bpe.js\<close>)\<close>

text \<open>
  A part is \<^verbatim>\<open>{pos, rank}\<close>; \<^verbatim>\<open>Infinity\<close> is \<open>\<infinity>\<close> of the extended naturals,
  and a rank of the table is a natural number. \<^verbatim>\<open>minRank\<close> is \<^verbatim>\<open>{rank, index}\<close>,
  starting at \<^verbatim>\<open>{rank: Infinity, index: -1}\<close>.
\<close>

record part =
  pos :: int
  rank :: enat

record minRank =
  mr_rank :: enat
  mr_index :: int

text \<open>
  Every \<^verbatim>\<open>throw\<close> of the two classes is a constructor. The source throws plain
  \<^verbatim>\<open>Error\<close> objects told apart by their message; the constructors carry the values
  the message is built from and are named after the error kinds of section 7 of the
  specification.
  \<^item> \<open>VocabularyGapError slice key start stop len\<close>: both throws of
    \<^verbatim>\<open>BytePairEncoder.encode\<close> (a single byte, or a merged slice, missing from the table).
  \<^item> \<open>MergeLoopError iterations maxIterations pieceLength minRank partsCount first10\<close>:
    the iteration cap of \<^verbatim>\<open>_bytePairMerge\<close>.
  \<^item> \<open>TypeError\<close>: a property of \<^verbatim>\<open>undefined\<close> is read or written
    (\<^verbatim>\<open>parts[i]\<close> out of range).
  \<^item> \<open>PatternError\<close>, \<open>InvalidCharacterError\<close>, \<open>RangeError\<close>: the constructor's regular
    expression does not compile; \<^verbatim>\<open>atob\<close> rejects a key; a call gets more arguments than
    the host accepts.
  \<^item> \<open>DisallowedSpecialTokenError token\<close>, \<open>UnknownTokenError input\<close>,
    \<open>UnknownTokenIdError token\<close>, \<open>InvalidUtf8Error\<close>: the throws of \<^verbatim>\<open>encode\<close>,
    \<^verbatim>\<open>encodeSingleToken\<close>, \<^verbatim>\<open>decodeBytes\<close> and of a fatal \<^verbatim>\<open>TextDecoder\<close>.
\<close>

type_synonym jsstring = "16 word list"

datatype text_or_bytes = Str jsstring | Bytes "byte list"

datatype error =
    VocabularyGapError "byte list" string int int nat
  | MergeLoopError nat nat nat minRank nat "part list"
  | TypeError
  | RangeError
  | PatternError jsstring
  | InvalidCharacterError
  | DisallowedSpecialTokenError jsstring
  | UnknownTokenError text_or_bytes
  | UnknownTokenIdError nat
  | InvalidUtf8Error

definition rank_or_infinity :: "nat option \<Rightarrow> enat" where
  "rank_or_infinity r = (case r of Some n \<Rightarrow> enat n | None \<Rightarrow> \<infinity>)"

text \<open>\<^verbatim>\<open>_getRank(ranks, piece, parts, i)\<close>, called with an index inside \<open>parts\<close>.\<close>

definition getRank :: "rank_table \<Rightarrow> byte list \<Rightarrow> part list \<Rightarrow> nat \<Rightarrow> enat" where
  "getRank ranks piece parts i =
     (if i + 3 \<ge> length parts then \<infinity>
      else rank_or_infinity
             (ranks_get ranks
                (bytesToKey (slice piece (pos (parts ! i)) (pos (parts ! (i + 3)))))))"

text \<open>
  The scan for the minimum: \<^verbatim>\<open>if (parts[j].rank < minRank.rank) minRank = {rank, index: j}\<close>
  for \<open>j\<close> rising. Phase 1 runs it over the pair entries while it builds them, the
  rescan of phase 2 over all entries but the last.
\<close>

fun scan_min :: "part list \<Rightarrow> int \<Rightarrow> minRank \<Rightarrow> minRank" where
  "scan_min [] j m = m"
| "scan_min (p # ps) j m =
     scan_min ps (j + 1)
       (if rank p < mr_rank m then \<lparr>mr_rank = rank p, mr_index = j\<rparr> else m)"

definition no_min :: minRank where
  "no_min = \<lparr>mr_rank = \<infinity>, mr_index = - 1\<rparr>"

definition find_min :: "part list \<Rightarrow> minRank" where
  "find_min parts = scan_min (butlast parts) 0 no_min"

definition init_pairs :: "rank_table \<Rightarrow> byte list \<Rightarrow> part list" where
  "init_pairs ranks piece =
     map (\<lambda>i. \<lparr>pos = int i,
               rank = rank_or_infinity
                        (ranks_get ranks (bytesToKey (slice piece (int i) (int i + 2))))\<rparr>)
       [0..<length piece - 1]"

definition init_parts :: "rank_table \<Rightarrow> byte list \<Rightarrow> part list" where
  "init_parts ranks piece =
     init_pairs ranks piece @
       [\<lparr>pos = int (length piece) - 1, rank = \<infinity>\<rparr>, \<lparr>pos = int (length piece), rank = \<infinity>\<rparr>]"

definition init_min :: "rank_table \<Rightarrow> byte list \<Rightarrow> minRank" where
  "init_min ranks piece = scan_min (init_pairs ranks piece) 0 no_min"

text \<open>\<^verbatim>\<open>parts.splice(k, 1)\<close>: nothing is removed when \<open>k\<close> is past the end.\<close>

definition splice1 :: "'a list \<Rightarrow> nat \<Rightarrow> 'a list" where
  "splice1 xs k = take k xs @ drop (Suc k) xs"

text \<open>
  The body of the loop after the cap check, for \<^verbatim>\<open>i = minRank.index\<close>: the two
  rank updates, then the splice. Writing \<^verbatim>\<open>parts[i].rank\<close> (and
  \<^verbatim>\<open>parts[i - 1].rank\<close> when \<open>i > 0\<close>) throws a \<^verbatim>\<open>TypeError\<close> exactly when
  \<open>i\<close> is not an index of \<open>parts\<close>.
\<close>

definition merge_parts :: "rank_table \<Rightarrow> byte list \<Rightarrow> part list \<Rightarrow> nat \<Rightarrow> part list" where
  "merge_parts ranks piece parts k =
     (let parts1 = (if k > 0
                    then parts[k - 1 := (parts ! (k - 1))\<lparr>rank := getRank ranks piece parts (k - 1)\<rparr>]
                    else parts);
          parts2 = parts1[k := (parts1 ! k)\<lparr>rank := getRank ranks piece parts1 k\<rparr>]
      in splice1 parts2 (k + 1))"

definition merge_at :: "rank_table \<Rightarrow> byte list \<Rightarrow> part list \<Rightarrow> int \<Rightarrow> error + part list" where
  "merge_at ranks piece parts i =
     (if i < 0 \<or> int (length parts) \<le> i then Inl TypeError
      else Inr (merge_parts ranks piece parts (nat i)))"

text \<open>
  The \<^verbatim>\<open>while\<close> loop of \<^verbatim>\<open>_bytePairMerge\<close>, with \<open>iterations\<close> as the source
  counts them. It returns the parts and, for the theorems about the cap, the count.
\<close>

function merge_loop ::
  "rank_table \<Rightarrow> byte list \<Rightarrow> part list \<Rightarrow> minRank \<Rightarrow> nat \<Rightarrow> error + (part list \<times> nat)" where
  "merge_loop ranks piece parts m iterations =
     (if mr_rank m = \<infinity> then Inr (parts, iterations)
      else if Suc iterations > length piece * 2
      then Inl (MergeLoopError (Suc iterations) (length piece * 2) (length piece) m
                  (length parts) (take 10 parts))
      else (case merge_at ranks piece parts (mr_index m) of
              Inl e \<Rightarrow> Inl e
            | Inr parts' \<Rightarrow> merge_loop ranks piece parts' (find_min parts') (Suc iterations)))"
  by pat_completeness auto
termination
  by (relation "measure (\<lambda>(ranks, piece, parts, m, iterations). Suc (length piece * 2) - iterations)")
    auto

declare merge_loop.simps [simp del]

definition bytePairMerge_run :: "rank_table \<Rightarrow> byte list \<Rightarrow> error + (part list \<times> nat)" where
  "bytePairMerge_run ranks piece =
     merge_loop ranks piece (init_parts ranks piece) (init_min ranks piece) 0"

definition bytePairMerge :: "rank_table \<Rightarrow> byte list \<Rightarrow> error + part list" where
  "bytePairMerge ranks piece =
     (case bytePairMerge_run ranks piece of Inl e \<Rightarrow> Inl e | Inr (parts, n) \<Rightarrow> Inr parts)"

text \<open>The second loop of \<^verbatim>\<open>encode\<close>: one table lookup per pair of neighbouring parts.\<close>

fun lookup_parts :: "rank_table \<Rightarrow> byte list \<Rightarrow> part list \<Rightarrow> error + nat list" where
  "lookup_parts ranks piece (p # q # rest) =
     (let byteSlice = slice piece (pos p) (pos q);
          key = bytesToKey byteSlice
      in case ranks_get ranks key of
           None \<Rightarrow> Inl (VocabularyGapError byteSlice key (pos p) (pos q) (length piece))
         | Some token \<Rightarrow>
             (case lookup_parts ranks piece (q # rest) of
                Inl e \<Rightarrow> Inl e
              | Inr tokens \<Rightarrow> Inr (token # tokens)))"
| "lookup_parts ranks piece [p] = Inr []"
| "lookup_parts ranks piece [] = Inr []"

definition BytePairEncoder_encode :: "rank_table \<Rightarrow> byte list \<Rightarrow> error + nat list" where
  "BytePairEncoder_encode ranks piece =
     (if length piece = 1
      then (let key = bytesToKey piece
            in case ranks_get ranks key of
                 None \<Rightarrow> Inl (VocabularyGapError piece key 0 1 1)
               | Some token \<Rightarrow> Inr [token])
      else (case bytePairMerge ranks piece of
              Inl e \<Rightarrow> Inl e
            | Inr parts \<Rightarrow> lookup_parts ranks piece parts))"

section \<open>The tokenizer (\<^verbatim>\<open>src/core/encoding.js\<close>)\<close>

subsection \<open>The host's strings and UTF-8 codec\<close>

text \<open>
  A JavaScript string is a list of UTF-16 code units. \<^verbatim>\<open>TextEncoder\<close> and
  \<^verbatim>\<open>TextDecoder\<close> belong to the host; they are written out after the WHATWG
  Encoding standard. \<open>jsstr\<close> writes an ASCII literal as a JavaScript string.
\<close>

definition jsstr :: "string \<Rightarrow> jsstring" where
  "jsstr s = map (\<lambda>c. of_nat (of_char c)) s"

definition is_lead :: "16 word \<Rightarrow> bool" where
  "is_lead c \<longleftrightarrow> 0xD800 \<le> c \<and> c \<le> 0xDBFF"

definition is_trail :: "16 word \<Rightarrow> bool" where
  "is_trail c \<longleftrightarrow> 0xDC00 \<le> c \<and> c \<le> 0xDFFF"

definition is_surrogate :: "16 word \<Rightarrow> bool" where
  "is_surrogate c \<longleftrightarrow> 0xD800 \<le> c \<and> c \<le> 0xDFFF"

text \<open>The code points of a string; a surrogate without its partner becomes U+FFFD.\<close>

fun code_points :: "jsstring \<Rightarrow> nat list" where
  "code_points (c # d # cs) =
     (if is_lead c \<and> is_trail d
      then (0x10000 + (unat c - 0xD800) * 0x400 + (unat d - 0xDC00)) # code_points cs
      else (if is_surrogate c then 0xFFFD else unat c) # code_points (d # cs))"
| "code_points [c] = [if is_surrogate c then 0xFFFD else unat c]"
| "code_points [] = []"

definition utf8_bytes :: "nat \<Rightarrow> byte list" where
  "utf8_bytes cp =
     (if cp < 0x80 then [of_nat cp]
      else if cp < 0x800 then [of_nat (0xC0 + cp div 64), of_nat (0x80 + cp mod 64)]
      else if cp < 0x10000
      then [of_nat (0xE0 + cp div 4096), of_nat (0x80 + cp div 64 mod 64), of_nat (0x80 + cp mod 64)]
      else [of_nat (0xF0 + cp div 262144), of_nat (0x80 + cp div 4096 mod 64),
            of_nat (0x80 + cp div 64 mod 64), of_nat (0x80 + cp mod 64)])"

definition TextEncoder_encode :: "jsstring \<Rightarrow> byte list" where
  "TextEncoder_encode s = concat (map utf8_bytes (code_points s))"

text \<open>
  The UTF-8 decoder of the standard, byte by byte, with its state (code point, bytes
  seen, bytes needed, lower and upper boundary). Each item of the result is a code
  point or \<open>None\<close> for an error; after an error inside a sequence the offending byte is
  read again from the initial state.
\<close>

function utf8_decode :: "byte list \<Rightarrow> nat \<Rightarrow> nat \<Rightarrow> nat \<Rightarrow> nat \<Rightarrow> nat \<Rightarrow> nat option list" where
  "utf8_decode [] cp seen needed lower upper = (if needed \<noteq> 0 then [None] else [])"
| "utf8_decode (b # bs) cp seen needed lower upper =
     (if needed = 0 then
        (if unat b \<le> 0x7F then Some (unat b) # utf8_decode bs 0 0 0 0x80 0xBF
         else if 0xC2 \<le> unat b \<and> unat b \<le> 0xDF
         then utf8_decode bs (unat b - 0xC0) 0 1 0x80 0xBF
         else if 0xE0 \<le> unat b \<and> unat b \<le> 0xEF
         then utf8_decode bs (unat b - 0xE0) 0 2
                (if unat b = 0xE0 then 0xA0 else 0x80) (if unat b = 0xED then 0x9F else 0xBF)
         else if 0xF0 \<le> unat b \<and> unat b \<le> 0xF4
         then utf8_decode bs (unat b - 0xF0) 0 3
                (if unat b = 0xF0 then 0x90 else 0x80) (if unat b = 0xF4 then 0x8F else 0xBF)
         else None # utf8_decode bs 0 0 0 0x80 0xBF)
      else if unat b < lower \<or> upper < unat b
      then None # utf8_decode (b # bs) 0 0 0 0x80 0xBF
      else if Suc seen \<noteq> needed
      then utf8_decode bs (cp * 64 + (unat b - 0x80)) (Suc seen) needed 0x80 0xBF
      else Some (cp * 64 + (unat b - 0x80)) # utf8_decode bs 0 0 0 0x80 0xBF)"
  by pat_completeness auto
termination
  by (relation "measure (\<lambda>(bs, cp, seen, needed, lower, upper).
        2 * length bs + (if needed = 0 then 0 else 1))") auto

definition utf16_units :: "nat \<Rightarrow> jsstring" where
  "utf16_units cp =
     (if cp < 0x10000 then [of_nat cp]
      else [of_nat (0xD800 + (cp - 0x10000) div 0x400),
            of_nat (0xDC00 + (cp - 0x10000) mod 0x400)])"

text \<open>
  \<^verbatim>\<open>new TextDecoder('utf-8', {fatal, ignoreBOM: true}).decode(bytes)\<close>: with
  \<open>fatal\<close> an error throws (\<open>None\<close>), without it each error becomes U+FFFD. A byte order
  mark is kept.
\<close>

definition TextDecoder_decode :: "bool \<Rightarrow> byte list \<Rightarrow> jsstring option" where
  "TextDecoder_decode fatal bytes =
     (let items = utf8_decode bytes 0 0 0 0x80 0xBF
      in if fatal \<and> None \<in> set items then None
         else Some (concat (map (\<lambda>i. utf16_units (case i of None \<Rightarrow> 0xFFFD | Some c \<Rightarrow> c)) items)))"

subsection \<open>The class \<^verbatim>\<open>Encoding\<close>\<close>

text \<open>
  The fields of an instance. \<open>specialTokens\<close> is the object's own enumerable properties
  in the order of \<^verbatim>\<open>Object.keys\<close>. \<open>pattern\<close> is what \<^verbatim>\<open>text.match(this._pattern)\<close>
  returns for the compiled \<^verbatim>\<open>new RegExp(patStr, 'gu')\<close>: all matches in order, or
  \<open>None\<close> for \<^verbatim>\<open>null\<close>. \<open>specialPattern\<close> holds the alternatives of the special-token
  expression, which are escaped and so match literally; \<open>None\<close> is \<^verbatim>\<open>null\<close>.
\<close>

record Encoding =
  name :: jsstring
  patStr :: jsstring
  mergeableRanks :: rank_table
  specialTokens :: "(jsstring \<times> nat) list"
  decoder :: "nat \<Rightarrow> byte list option"
  specialTokensDecoder :: "nat \<Rightarrow> byte list option"
  pattern :: "jsstring \<Rightarrow> jsstring list option"
  specialPattern :: "jsstring list option"
  maxTokenValue :: int

text \<open>
  The first loop of the constructor: \<^verbatim>\<open>this._decoder.set(rank, keyToBytes(key))\<close> for
  every entry in order, a later entry replacing an earlier one of the same rank.
\<close>

fun build_decoder ::
  "rank_table \<Rightarrow> (nat \<Rightarrow> byte list option) \<Rightarrow> error + (nat \<Rightarrow> byte list option)" where
  "build_decoder [] d = Inr d"
| "build_decoder ((key, r) # rest) d =
     (case keyToBytes key of
        None \<Rightarrow> Inl InvalidCharacterError
      | Some bytes \<Rightarrow> build_decoder rest (d(r \<mapsto> bytes)))"

fun build_special_decoder ::
  "(jsstring \<times> nat) list \<Rightarrow> (nat \<Rightarrow> byte list option) \<Rightarrow> (nat \<Rightarrow> byte list option)" where
  "build_special_decoder [] d = d"
| "build_special_decoder ((token, r) # rest) d =
     build_special_decoder rest (d(r \<mapsto> TextEncoder_encode token))"

text \<open>
  \<^verbatim>\<open>Math.max(...values)\<close> of a non-empty collection. The spread passes every value as
  an argument of the call; a host that accepts at most \<open>k\<close> arguments (\<open>limit = Some k\<close>,
  \<open>None\<close> for a host without limit) throws a \<^verbatim>\<open>RangeError\<close> beyond that.
\<close>

definition within_limit :: "nat option \<Rightarrow> nat \<Rightarrow> bool" where
  "within_limit limit n = (case limit of None \<Rightarrow> True | Some k \<Rightarrow> n \<le> k)"

definition max_of :: "nat list \<Rightarrow> int" where
  "max_of values = fold max (map int values) (int (hd values))"

definition Math_max :: "nat option \<Rightarrow> nat list \<Rightarrow> error + int" where
  "Math_max limit values =
     (if within_limit limit (length values) then Inr (max_of values) else Inl RangeError)"

text \<open>
  The argument list \<^verbatim>\<open>...items\<close> of the calls \<^verbatim>\<open>tokens.push(...items)\<close>: every
  element is an argument of the call, with the same limit and the same error.
\<close>

definition spread :: "nat option \<Rightarrow> nat list \<Rightarrow> error + nat list" where
  "spread limit items = (if within_limit limit (length items) then Inr items else Inl RangeError)"

text \<open>
  The constructor. \<open>RegExp\<close> is the host's \<^verbatim>\<open>new RegExp(patStr, 'gu')\<close>: \<open>None\<close> when
  the pattern does not compile. \<open>limit\<close> is the host's limit on the arguments of a call.
\<close>

definition Encoding_new ::
  "(jsstring \<Rightarrow> (jsstring \<Rightarrow> jsstring list option) option) \<Rightarrow> nat option \<Rightarrow> jsstring \<Rightarrow>
   jsstring \<Rightarrow> rank_table \<Rightarrow> (jsstring \<times> nat) list \<Rightarrow> error + Encoding" where
  "Encoding_new RegExp limit nm pat ranks special =
     (case build_decoder ranks Map.empty of
        Inl e \<Rightarrow> Inl e
      | Inr dec \<Rightarrow>
          (case RegExp pat of
             None \<Rightarrow> Inl (PatternError pat)
           | Some compiled \<Rightarrow>
               (case (if length ranks > 0 then Math_max limit (map snd ranks) else Inr (- 1)) of
                  Inl e \<Rightarrow> Inl e
                | Inr maxMergeable \<Rightarrow>
                    (case (if length special > 0 then Math_max limit (map snd special)
                           else Inr (- 1)) of
                       Inl e \<Rightarrow> Inl e
                     | Inr maxSpecial \<Rightarrow>
                         Inr \<lparr>name = nm, patStr = pat, mergeableRanks = ranks,
                              specialTokens = special, decoder = dec,
                              specialTokensDecoder = build_special_decoder special Map.empty,
                              pattern = compiled,
                              specialPattern =
                                (if length special > 0 then Some (map fst special) else None),
                              maxTokenValue = max maxMergeable maxSpecial\<rparr>))))"

text \<open>
  \<^verbatim>\<open>encodeOrdinary\<close>. The pieces are the matches of the pattern, none for the empty
  text or when nothing matches. A piece that is a key of the table is pushed as one
  argument; the tokens of any other piece are pushed by \<^verbatim>\<open>tokens.push(...pieceTokens)\<close>.
\<close>

definition pretokenize :: "Encoding \<Rightarrow> jsstring \<Rightarrow> jsstring list" where
  "pretokenize enc text =
     (if text = [] then [] else (case pattern enc text of None \<Rightarrow> [] | Some matches \<Rightarrow> matches))"

fun encode_pieces :: "nat option \<Rightarrow> rank_table \<Rightarrow> jsstring list \<Rightarrow> error + nat list" where
  "encode_pieces limit ranks [] = Inr []"
| "encode_pieces limit ranks (m # ms) =
     (let piece = TextEncoder_encode m;
          key = bytesToKey piece
      in case (case ranks_get ranks key of
                 Some directToken \<Rightarrow> Inr [directToken]
               | None \<Rightarrow>
                   (case BytePairEncoder_encode ranks piece of
                      Inl e \<Rightarrow> Inl e
                    | Inr pieceTokens \<Rightarrow> spread limit pieceTokens)) of
           Inl e \<Rightarrow> Inl e
         | Inr pushed \<Rightarrow>
             (case encode_pieces limit ranks ms of
                Inl e \<Rightarrow> Inl e
              | Inr tokens \<Rightarrow> Inr (pushed @ tokens)))"

definition encodeOrdinary :: "nat option \<Rightarrow> Encoding \<Rightarrow> jsstring \<Rightarrow> error + nat list" where
  "encodeOrdinary limit enc text =
     encode_pieces limit (mergeableRanks enc) (pretokenize enc text)"












text \<open>
  \<^verbatim>\<open>encodeSingleToken\<close>. \<^verbatim>\<open>this._specialTokens[textOrBytes]\<close> is a property read of
  an ordinary object: an own property if there is one, else the property of that name
  which every ordinary object inherits from \<^verbatim>\<open>Object.prototype\<close>, else
  \<^verbatim>\<open>undefined\<close> (\<open>None\<close>). The function returns what it read.
\<close>

datatype jsvalue = Number nat | Inherited jsstring

definition Object_prototype_keys :: "string list" where
  "Object_prototype_keys =
     [''constructor'', ''hasOwnProperty'', ''isPrototypeOf'', ''propertyIsEnumerable'',
      ''toLocaleString'', ''toString'', ''valueOf'', ''__defineGetter__'', ''__defineSetter__'',
      ''__lookupGetter__'', ''__lookupSetter__'', ''__proto__'']"

definition object_get :: "(jsstring \<times> nat) list \<Rightarrow> jsstring \<Rightarrow> jsvalue option" where
  "object_get obj key =
     (case map_of obj key of
        Some v \<Rightarrow> Some (Number v)
      | None \<Rightarrow> if key \<in> set (map jsstr Object_prototype_keys) then Some (Inherited key) else None)"

definition encodeSingleToken :: "Encoding \<Rightarrow> text_or_bytes \<Rightarrow> error + jsvalue" where
  "encodeSingleToken enc textOrBytes =
     (case (case textOrBytes of
              Str s \<Rightarrow> object_get (specialTokens enc) s
            | Bytes b \<Rightarrow> None) of
        Some specialToken \<Rightarrow> Inr specialToken
      | None \<Rightarrow>
          (let bytes = (case textOrBytes of Str s \<Rightarrow> TextEncoder_encode s | Bytes b \<Rightarrow> b);
               key = bytesToKey bytes
           in case ranks_get (mergeableRanks enc) key of
                None \<Rightarrow> Inl (UnknownTokenError textOrBytes)
              | Some token \<Rightarrow> Inr (Number token)))"

text \<open>
  \<^verbatim>\<open>decodeBytes\<close>: \<^verbatim>\<open>this._decoder.get(token) || this._specialTokensDecoder.get(token)\<close>;
  a \<^verbatim>\<open>Uint8Array\<close> is truthy whatever its length.
\<close>

fun decode_tokens :: "Encoding \<Rightarrow> nat list \<Rightarrow> error + byte list list" where
  "decode_tokens enc [] = Inr []"
| "decode_tokens enc (token # tokens) =
     (case (case decoder enc token of
              Some bytes \<Rightarrow> Some bytes
            | None \<Rightarrow> specialTokensDecoder enc token) of
        None \<Rightarrow> Inl (UnknownTokenIdError token)
      | Some bytes \<Rightarrow>
          (case decode_tokens enc tokens of
             Inl e \<Rightarrow> Inl e
           | Inr byteArrays \<Rightarrow> Inr (bytes # byteArrays)))"

definition decodeBytes :: "Encoding \<Rightarrow> nat list \<Rightarrow> error + byte list" where
  "decodeBytes enc tokens =
     (case decode_tokens enc tokens of Inl e \<Rightarrow> Inl e | Inr byteArrays \<Rightarrow> Inr (concat byteArrays))"

text \<open>
  \<^verbatim>\<open>decode(tokens, errors)\<close> with \<open>errors\<close> one of \<^verbatim>\<open>'replace'\<close> (the default),
  \<^verbatim>\<open>'ignore'\<close> and \<^verbatim>\<open>'strict'\<close>. The decoder is fatal only for \<^verbatim>\<open>'strict'\<close>; the
  \<^verbatim>\<open>catch\<close> block calls the same decoder again for \<^verbatim>\<open>'ignore'\<close> and rethrows
  otherwise.
\<close>

datatype error_policy = Replace | Ignore | Strict

definition decode :: "Encoding \<Rightarrow> nat list \<Rightarrow> error_policy \<Rightarrow> error + jsstring" where
  "decode enc tokens errors =
     (case decodeBytes enc tokens of
        Inl e \<Rightarrow> Inl e
      | Inr bytes \<Rightarrow>
          (case TextDecoder_decode (errors = Strict) bytes of
             Some text \<Rightarrow> Inr text
           | None \<Rightarrow>
               if errors = Ignore
               then (case TextDecoder_decode (errors = Strict) bytes of
                       Some text \<Rightarrow> Inr text
                     | None \<Rightarrow> Inl InvalidUtf8Error)
               else Inl InvalidUtf8Error))"

text \<open>
  A rank table given by its byte sequences, as section 3 of the specification has it
  and as the loader builds it: every key is \<^verbatim>\<open>bytesToKey\<close> of a byte sequence.
\<close>

definition rank_table_of :: "(byte list \<times> nat) list \<Rightarrow> rank_table" where
  "rank_table_of entries = map (\<lambda>(bytes, r). (bytesToKey bytes, r)) entries"

section \<open>The merge loop as the specification words it\<close>

text \<open>
  Section 4.1 of the specification, step by step, written independently of the loop
  above. The part list starts with one entry per byte index that begins a pair
  (\<open>0..len-1\<close>, the upper bound excluded), ranked by the table or infinite, and two
  sentinels at \<open>len - 1\<close> and \<open>len\<close>. The entry to merge is the global minimum of
  finite rank, the earliest on ties. Merging at \<open>i\<close> recomputes the ranks of the
  entries \<open>i - 1\<close> (if any) and \<open>i\<close> as the rank of the slice up to the boundary three
  positions ahead in the current list (infinite when there is no such boundary or the
  table has no such slice) and removes the boundary \<open>i + 1\<close>. The run ends when no
  finite rank remains.
\<close>

definition spec_rank :: "rank_table \<Rightarrow> byte list \<Rightarrow> int \<Rightarrow> int \<Rightarrow> enat" where
  "spec_rank ranks piece a b =
     (case ranks_get ranks (bytesToKey (slice piece a b)) of Some r \<Rightarrow> enat r | None \<Rightarrow> \<infinity>)"

definition spec_init :: "rank_table \<Rightarrow> byte list \<Rightarrow> part list" where
  "spec_init ranks piece =
     map (\<lambda>i. \<lparr>pos = i, rank = spec_rank ranks piece i (i + 2)\<rparr>) [0..int (length piece) - 2] @
     [\<lparr>pos = int (length piece) - 1, rank = \<infinity>\<rparr>, \<lparr>pos = int (length piece), rank = \<infinity>\<rparr>]"

definition spec_minimum :: "part list \<Rightarrow> nat \<Rightarrow> bool" where
  "spec_minimum parts i \<longleftrightarrow>
     i < length parts \<and> rank (parts ! i) \<noteq> \<infinity> \<and>
     (\<forall>j<length parts. rank (parts ! i) \<le> rank (parts ! j)) \<and>
     (\<forall>j<i. rank (parts ! i) < rank (parts ! j))"

definition spec_rerank :: "rank_table \<Rightarrow> byte list \<Rightarrow> part list \<Rightarrow> nat \<Rightarrow> part" where
  "spec_rerank ranks piece parts j =
     (parts ! j)\<lparr>rank := (if j + 3 < length parts
                           then spec_rank ranks piece (pos (parts ! j)) (pos (parts ! (j + 3)))
                           else \<infinity>)\<rparr>"

definition spec_merge :: "rank_table \<Rightarrow> byte list \<Rightarrow> part list \<Rightarrow> nat \<Rightarrow> part list" where
  "spec_merge ranks piece parts i =
     map (\<lambda>j. if j + 1 = i \<or> j = i then spec_rerank ranks piece parts j else parts ! j) [0..<i + 1] @
     drop (i + 2) parts"

inductive spec_run :: "rank_table \<Rightarrow> byte list \<Rightarrow> part list \<Rightarrow> part list \<Rightarrow> bool"
  for ranks :: rank_table and piece :: "byte list" where
  finished: "\<forall>p\<in>set parts. rank p = \<infinity> \<Longrightarrow> spec_run ranks piece parts parts"
| merge: "spec_minimum parts i \<Longrightarrow> spec_run ranks piece (spec_merge ranks piece parts i) final \<Longrightarrow>
          spec_run ranks piece parts final"

section \<open>Invariants of the part list\<close>

text \<open>The last two entries are the sentinels: their rank is infinite.\<close>

definition sentinels_ok :: "part list \<Rightarrow> bool" where
  "sentinels_ok parts \<longleftrightarrow>
     2 \<le> length parts \<and> rank (parts ! (length parts - 1)) = \<infinity> \<and>
     rank (parts ! (length parts - 2)) = \<infinity>"

text \<open>
  The boundaries rise from 0 to the length of the piece; the rank of an entry is the
  rank of the slice it spans together with its right neighbour; the slice between two
  neighbouring boundaries (\<open>segments\<close>) is a key of the table.
\<close>

fun segments :: "byte list \<Rightarrow> part list \<Rightarrow> byte list list" where
  "segments piece (p # q # rest) = slice piece (pos p) (pos q) # segments piece (q # rest)"
| "segments piece [p] = []"
| "segments piece [] = []"

definition boundaries_ok :: "byte list \<Rightarrow> part list \<Rightarrow> bool" where
  "boundaries_ok piece parts \<longleftrightarrow>
     (\<forall>i j. i < j \<longrightarrow> j < length parts \<longrightarrow> pos (parts ! i) < pos (parts ! j)) \<and>
     pos (parts ! 0) = 0 \<and> pos (parts ! (length parts - 1)) = int (length piece)"

definition ranks_ok :: "rank_table \<Rightarrow> byte list \<Rightarrow> part list \<Rightarrow> bool" where
  "ranks_ok ranks piece parts \<longleftrightarrow>
     (\<forall>j. j + 2 < length parts \<longrightarrow>
        rank (parts ! j) =
          rank_or_infinity
            (ranks_get ranks (bytesToKey (slice piece (pos (parts ! j)) (pos (parts ! (j + 2)))))))"

definition segments_ok :: "rank_table \<Rightarrow> byte list \<Rightarrow> part list \<Rightarrow> bool" where
  "segments_ok ranks piece parts \<longleftrightarrow>
     (\<forall>j. j + 1 < length parts \<longrightarrow>
        ranks_get ranks (bytesToKey (slice piece (pos (parts ! j)) (pos (parts ! (j + 1))))) \<noteq> None)"

text \<open>
  A table with exactly the 256 single-byte keys, the byte \<open>b\<close> ranked \<open>b\<close>: the least
  table that satisfies the invariant of section 3 of the specification.
\<close>

definition byte_table :: rank_table where
  "byte_table = map (\<lambda>n. (bytesToKey [of_nat n], n)) [0..<256]"

text \<open>
  The host's regular expressions at the one pattern that the examples below use,
  \<^verbatim>\<open>[^]+\<close>: \<^verbatim>\<open>new RegExp('[^]+', 'gu')\<close> compiles, and \<^verbatim>\<open>text.match\<close> of it returns
  the whole of a non-empty text as its only match, and \<^verbatim>\<open>null\<close> for the empty text.
  No other pattern is given a meaning here.
\<close>

definition host_RegExp :: "jsstring \<Rightarrow> (jsstring \<Rightarrow> jsstring list option) option" where
  "host_RegExp p =
     (if p = jsstr ''[^]+'' then Some (\<lambda>t. if t = [] then None else Some [t]) else None)"

section \<open>Properties of the host functions\<close>

subsection \<open>\<^verbatim>\<open>atob\<close> inverts \<^verbatim>\<open>btoa\<close>\<close>

lemma b64_alphabet_props: "length b64_alphabet = 64" "distinct b64_alphabet"
  "CHR ''='' \<notin> set b64_alphabet" "set b64_alphabet \<inter> set ascii_whitespace = {}"
  by (simp_all add: b64_alphabet_def ascii_whitespace_def)

lemma b64_index_char: "n < 64 \<Longrightarrow> b64_index (b64_char n) = Some n"
  unfolding b64_index_def b64_char_def
  using map_of_zip_nth[of b64_alphabet "[0..<64]" n] b64_alphabet_props(1,2) by simp

lemma b64_char_in: "n < 64 \<Longrightarrow> b64_char n \<in> set b64_alphabet"
  by (simp add: b64_char_def b64_alphabet_props(1))

lemma b64_char_not_pad: "n < 64 \<Longrightarrow> b64_char n \<noteq> CHR ''=''"
  using b64_char_in b64_alphabet_props(3) by metis

lemma b64_char_not_ws: "n < 64 \<Longrightarrow> b64_char n \<notin> set ascii_whitespace"
  using b64_char_in b64_alphabet_props(4) by blast

lemma pad_not_ws: "CHR ''='' \<notin> set ascii_whitespace"
  by (simp add: ascii_whitespace_def)


lemma div_mod_combine:
  fixes a k r :: nat
  assumes "r < k"
  shows "(a * k + r) div k = a" and "(a * k + r) mod k = r"
  using assms by simp_all

lemma digits64:
  fixes n :: nat
  shows "((n div 262144 * 64 + n div 4096 mod 64) * 64 + n div 64 mod 64) * 64 + n mod 64 = n"
    and "(n div 262144 * 64 + n div 4096 mod 64) * 64 + n div 64 mod 64 = n div 64"
    and "n div 262144 * 64 + n div 4096 mod 64 = n div 4096"
proof -
  have a: "n div 4096 = n div 64 div 64" by (simp add: div_mult2_eq[symmetric])
  have b: "n div 262144 = n div 64 div 64 div 64" by (simp add: div_mult2_eq[symmetric])
  show c: "n div 262144 * 64 + n div 4096 mod 64 = n div 4096"
    unfolding a b by (rule div_mult_mod_eq)
  show d: "(n div 262144 * 64 + n div 4096 mod 64) * 64 + n div 64 mod 64 = n div 64"
    unfolding c unfolding a by (rule div_mult_mod_eq)
  show "((n div 262144 * 64 + n div 4096 mod 64) * 64 + n div 64 mod 64) * 64 + n mod 64 = n"
    unfolding d by (rule div_mult_mod_eq)
qed

lemma group3_arith:
  fixes a b c :: nat
  assumes "a < 256" "b < 256" "c < 256"
  shows "(a * 65536 + b * 256 + c) div 262144 < 64"
    and "(a * 65536 + b * 256 + c) div 65536 = a"
    and "(a * 65536 + b * 256 + c) div 256 mod 256 = b"
    and "(a * 65536 + b * 256 + c) mod 256 = c"
proof -
  let ?n = "a * 65536 + b * 256 + c"
  have "?n < 64 * 262144" using assms by simp
  then show "?n div 262144 < 64" by (simp add: div_less_iff_less_mult)
  have r: "b * 256 + c < 65536" using assms by simp
  have "?n = a * 65536 + (b * 256 + c)" by simp
  then show "?n div 65536 = a" using div_mod_combine(1)[OF r, of a] by simp
  have e: "?n = (a * 256 + b) * 256 + c" by simp
  have d: "?n div 256 = a * 256 + b"
    unfolding e using div_mod_combine(1)[OF assms(3), of "a * 256 + b"] .
  show "?n div 256 mod 256 = b"
    unfolding d using div_mod_combine(2)[OF assms(2), of a] .
  show "?n mod 256 = c"
    unfolding e using div_mod_combine(2)[OF assms(3), of "a * 256 + b"] .
qed

lemma group2_arith:
  fixes a b :: nat
  assumes "a < 256" "b < 256"
  shows "(a * 65536 + b * 256) div 262144 < 64"
    and "(a * 65536 + b * 256) div 64 div 4 div 256 = a"
    and "(a * 65536 + b * 256) div 64 div 4 mod 256 = b"
proof -
  let ?n = "a * 65536 + b * 256"
  have "?n < 64 * 262144" using assms by simp
  then show "?n div 262144 < 64" by (simp add: div_less_iff_less_mult)
  have d1: "?n div 64 div 4 = ?n div 256" by (simp add: div_mult2_eq[symmetric])
  have d2: "?n = (a * 256 + b) * 256" by simp
  have d: "?n div 64 div 4 = a * 256 + b" unfolding d1 unfolding d2 by simp
  show "?n div 64 div 4 div 256 = a"
    unfolding d using div_mod_combine(1)[OF assms(2), of a] .
  show "?n div 64 div 4 mod 256 = b"
    unfolding d using div_mod_combine(2)[OF assms(2), of a] .
qed

lemma group1_arith:
  fixes a :: nat
  assumes "a < 256"
  shows "(a * 65536) div 262144 < 64" and "(a * 65536) div 4096 div 16 = a"
proof -
  have "a * 65536 < 64 * 262144" using assms by simp
  then show "(a * 65536) div 262144 < 64" by (simp add: div_less_iff_less_mult)
  have "a * 65536 = a * 65536 + 0" by simp
  have "(a * 65536) div 4096 div 16 = (a * 65536) div 65536" by (simp add: div_mult2_eq[symmetric])
  then show "(a * 65536) div 4096 div 16 = a" by simp
qed


lemma unat_byte_less: "unat (a :: byte) < 256"
  using unsigned_less[of a, where 'a = nat] by simp

lemma btoa_chars: "set (btoa bs) \<subseteq> insert (CHR ''='') (b64_char ` {..<64})"
proof (induction bs rule: btoa.induct)
  case (1 a b c rest)
  have "(unat a * 65536 + unat b * 256 + unat c) div 262144 < 64"
    by (rule group3_arith(1)) (rule unat_byte_less)+
  with 1 show ?case by (auto simp: Let_def)
next
  case (2 a b)
  have "(unat a * 65536 + unat b * 256) div 262144 < 64"
    by (rule group2_arith(1)) (rule unat_byte_less)+
  then show ?case by (auto simp: Let_def)
next
  case (3 a)
  have "(unat a * 65536) div 262144 < 64"
    by (rule group1_arith(1)) (rule unat_byte_less)
  then show ?case by (auto simp: Let_def)
next
  case 4
  show ?case by simp
qed

lemma btoa_not_ws: "c \<in> set (btoa bs) \<Longrightarrow> c \<notin> set ascii_whitespace"
  using btoa_chars[of bs] b64_char_not_ws pad_not_ws by auto

lemma length_btoa: "length (btoa bs) mod 4 = 0" "bs \<noteq> [] \<Longrightarrow> 2 \<le> length (btoa bs)"
  by (induction bs rule: btoa.induct) (simp_all add: Let_def)

lemma strip_padding_group:
  assumes "c4 \<noteq> CHR ''=''" and "x = [] \<or> 2 \<le> length x"
  shows "strip_padding (c1 # c2 # c3 # c4 # x) = c1 # c2 # c3 # c4 # strip_padding x"
proof (cases "x = []")
  case True
  with assms(1) show ?thesis by (simp add: strip_padding_def)
next
  case False
  with assms(2) have "2 \<le> length (rev x)" by simp
  then obtain e1 e2 r where r: "rev x = e1 # e2 # r"
    by (cases "rev x"; cases "tl (rev x)") auto
  then have x: "x = rev r @ [e2, e1]" by (metis rev_rev_ident rev.simps(2) append.assoc append_Cons append_Nil)
  have m: "(6 + length r) mod 4 = Suc (Suc (length r)) mod 4" by presburger
  show ?thesis unfolding x by (simp add: strip_padding_def m)
qed

lemma atob_core:
  "\<exists>d is. strip_padding (btoa bs) = d \<and> length d mod 4 \<noteq> 1 \<and> b64_indices d = Some is \<and>
     b64_bytes is = bs"
proof (induction bs rule: btoa.induct)
  case (1 a b c rest)
  let ?n = "unat a * 65536 + unat b * 256 + unat c"
  note ub = unat_byte_less[of a] unat_byte_less[of b] unat_byte_less[of c]
  have i1: "?n div 262144 < 64" using ub by (rule group3_arith(1))
  from 1 obtain d "is" where d: "strip_padding (btoa rest) = d" "length d mod 4 \<noteq> 1"
    "b64_indices d = Some is" "b64_bytes is = rest" by blast
  have x: "btoa rest = [] \<or> 2 \<le> length (btoa rest)"
    using length_btoa(2)[of rest] by (cases rest) auto
  have c4: "b64_char (?n mod 64) \<noteq> CHR ''=''" by (rule b64_char_not_pad) simp
  have s: "strip_padding (btoa (a # b # c # rest)) =
      b64_char (?n div 262144) # b64_char (?n div 4096 mod 64) # b64_char (?n div 64 mod 64) #
      b64_char (?n mod 64) # d"
    using strip_padding_group[OF c4 x] d(1) by (simp add: Let_def)
  have idx: "b64_indices (b64_char (?n div 262144) # b64_char (?n div 4096 mod 64) #
      b64_char (?n div 64 mod 64) # b64_char (?n mod 64) # d) =
      Some (?n div 262144 # ?n div 4096 mod 64 # ?n div 64 mod 64 # ?n mod 64 # is)"
    using i1 d(3) by (simp add: b64_index_char)
  have bytes: "b64_bytes (?n div 262144 # ?n div 4096 mod 64 # ?n div 64 mod 64 # ?n mod 64 # is) =
      a # b # c # rest"
    using d(4) group3_arith(2-4)[OF ub] by (simp only: b64_bytes.simps Let_def digits64(1)) simp
  from s idx bytes d(2) show ?case by simp
next
  case (2 a b)
  let ?n = "unat a * 65536 + unat b * 256"
  note ub = unat_byte_less[of a] unat_byte_less[of b]
  have i1: "?n div 262144 < 64" using ub by (rule group2_arith(1))
  have c3: "b64_char (?n div 64 mod 64) \<noteq> CHR ''=''" by (rule b64_char_not_pad) simp
  have s: "strip_padding (btoa [a, b]) =
      [b64_char (?n div 262144), b64_char (?n div 4096 mod 64), b64_char (?n div 64 mod 64)]"
    using c3 by (simp add: strip_padding_def Let_def)
  have idx: "b64_indices [b64_char (?n div 262144), b64_char (?n div 4096 mod 64),
      b64_char (?n div 64 mod 64)] = Some [?n div 262144, ?n div 4096 mod 64, ?n div 64 mod 64]"
    using i1 by (simp add: b64_index_char)
  have bytes: "b64_bytes [?n div 262144, ?n div 4096 mod 64, ?n div 64 mod 64] = [a, b]"
    using group2_arith(2,3)[OF ub] by (simp only: b64_bytes.simps Let_def digits64(2)) simp
  from s idx bytes show ?case by simp
next
  case (3 a)
  let ?n = "unat a * 65536"
  note ub = unat_byte_less[of a]
  have i1: "?n div 262144 < 64" using ub by (rule group1_arith(1))
  have c2: "b64_char (?n div 4096 mod 64) \<noteq> CHR ''=''" by (rule b64_char_not_pad) simp
  have s: "strip_padding (btoa [a]) = [b64_char (?n div 262144), b64_char (?n div 4096 mod 64)]"
    using c2 by (simp add: strip_padding_def Let_def)
  have idx: "b64_indices [b64_char (?n div 262144), b64_char (?n div 4096 mod 64)] =
      Some [?n div 262144, ?n div 4096 mod 64]"
    using i1 by (simp add: b64_index_char)
  have bytes: "b64_bytes [?n div 262144, ?n div 4096 mod 64] = [a]"
    using group1_arith(2)[OF ub] by (simp only: b64_bytes.simps Let_def digits64(3)) simp
  from s idx bytes show ?case by simp
next
  case 4
  show ?case by (simp add: strip_padding_def)
qed

lemma atob_btoa: "atob (btoa bs) = Some bs"
proof -
  have f: "filter (\<lambda>c. c \<notin> set ascii_whitespace) (btoa bs) = btoa bs"
    using btoa_not_ws by (simp add: filter_id_conv)
  from atob_core[of bs] show ?thesis by (auto simp: atob_def f Let_def)
qed

lemma keyToBytes_bytesToKey: "keyToBytes (bytesToKey bs) = Some bs"
  by (simp add: keyToBytes_def bytesToKey_def atob_btoa)

lemma bytesToKey_inj: "bytesToKey a = bytesToKey b \<Longrightarrow> a = b"
  using keyToBytes_bytesToKey by (metis option.inject)

section \<open>Properties of the merge loop\<close>

subsection \<open>The scan finds the leftmost minimum\<close>

lemma scan_min_le_start: "mr_rank (scan_min ps j m) \<le> mr_rank m"
proof (induction ps arbitrary: j m)
  case Nil
  show ?case by simp
next
  case (Cons p ps)
  show ?case
  proof (cases "rank p < mr_rank m")
    case True
    have "mr_rank (scan_min ps (j + 1) \<lparr>mr_rank = rank p, mr_index = j\<rparr>) \<le> rank p"
      using Cons.IH[of "j + 1" "\<lparr>mr_rank = rank p, mr_index = j\<rparr>"] by simp
    with True show ?thesis by simp
  next
    case False
    with Cons.IH[of "j + 1" m] show ?thesis by simp
  qed
qed

lemma scan_min_le_elem: "p \<in> set ps \<Longrightarrow> mr_rank (scan_min ps j m) \<le> rank p"
proof (induction ps arbitrary: j m)
  case Nil
  then show ?case by simp
next
  case (Cons q ps)
  let ?m = "if rank q < mr_rank m then \<lparr>mr_rank = rank q, mr_index = j\<rparr> else m"
  have eq: "scan_min (q # ps) j m = scan_min ps (j + 1) ?m" by simp
  show ?case
  proof (cases "p = q")
    case True
    have "mr_rank (scan_min ps (j + 1) ?m) \<le> mr_rank ?m" by (rule scan_min_le_start)
    also have "mr_rank ?m \<le> rank q" by (simp add: not_less)
    finally show ?thesis using True eq by simp
  next
    case False
    with Cons.prems have "p \<in> set ps" by simp
    from Cons.IH[OF this, of "j + 1" ?m] eq show ?thesis by simp
  qed
qed

lemma scan_min_unchanged: "\<not> mr_rank (scan_min ps j m) < mr_rank m \<Longrightarrow> scan_min ps j m = m"
proof (induction ps arbitrary: j m)
  case Nil
  show ?case by simp
next
  case (Cons p ps)
  show ?case
  proof (cases "rank p < mr_rank m")
    case True
    have "mr_rank (scan_min ps (j + 1) \<lparr>mr_rank = rank p, mr_index = j\<rparr>) \<le> rank p"
      using scan_min_le_start[of ps "j + 1" "\<lparr>mr_rank = rank p, mr_index = j\<rparr>"] by simp
    with True have "mr_rank (scan_min (p # ps) j m) < mr_rank m"
      by (simp add: order.strict_trans1)
    with Cons.prems show ?thesis by simp
  next
    case False
    with Cons.prems Cons.IH[of "j + 1" m] show ?thesis by simp
  qed
qed

lemma scan_min_leftmost:
  "mr_rank (scan_min ps j m) < mr_rank m \<Longrightarrow>
   \<exists>k<length ps. mr_index (scan_min ps j m) = j + int k \<and>
      rank (ps ! k) = mr_rank (scan_min ps j m) \<and>
      (\<forall>k'<k. mr_rank (scan_min ps j m) < rank (ps ! k'))"
proof (induction ps arbitrary: j m)
  case Nil
  then show ?case by simp
next
  case (Cons p ps)
  let ?m = "if rank p < mr_rank m then \<lparr>mr_rank = rank p, mr_index = j\<rparr> else m"
  let ?r = "scan_min ps (j + 1) ?m"
  have eq: "scan_min (p # ps) j m = ?r" by simp
  have mp: "mr_rank ?m \<le> rank p" by (simp add: not_less)
  show ?case
  proof (cases "mr_rank ?r < mr_rank ?m")
    case True
    from Cons.IH[OF True] obtain k where k: "k < length ps" "mr_index ?r = j + 1 + int k"
      "rank (ps ! k) = mr_rank ?r" "\<forall>k'<k. mr_rank ?r < rank (ps ! k')" by auto
    have "\<forall>k'<Suc k. mr_rank ?r < rank ((p # ps) ! k')"
    proof (intro allI impI)
      fix k' assume a: "k' < Suc k"
      show "mr_rank ?r < rank ((p # ps) ! k')"
      proof (cases k')
        case 0
        from True mp have "mr_rank ?r < rank p" by (rule order.strict_trans2)
        with 0 show ?thesis by simp
      next
        case (Suc n)
        with a k(4) show ?thesis by simp
      qed
    qed
    with k(1-3) show ?thesis unfolding eq
      by (intro exI[of _ "Suc k"]) simp
  next
    case False
    then have r: "?r = ?m" by (rule scan_min_unchanged)
    with Cons.prems eq have lt: "rank p < mr_rank m" by (auto split: if_splits)
    with r eq have "scan_min (p # ps) j m = \<lparr>mr_rank = rank p, mr_index = j\<rparr>" by simp
    then show ?thesis by (intro exI[of _ 0]) simp
  qed
qed

lemma getRank_pos_cong:
  "map pos ps = map pos qs \<Longrightarrow> getRank ranks piece ps i = getRank ranks piece qs i"
proof -
  assume a: "map pos ps = map pos qs"
  then have len: "length ps = length qs" by (rule map_eq_imp_length_eq)
  have nth: "\<And>j. j < length ps \<Longrightarrow> pos (ps ! j) = pos (qs ! j)"
    using a len by (metis nth_map)
  show ?thesis using len nth[of i] nth[of "i + 3"] by (simp add: getRank_def)
qed

lemma length_merge_parts:
  "k + 1 < length parts \<Longrightarrow> length (merge_parts ranks piece parts k) = length parts - 1"
  by (auto simp: merge_parts_def splice1_def Let_def)

lemma pos_merge_parts:
  "k + 1 < length parts \<Longrightarrow> j < length parts - 1 \<Longrightarrow>
   pos (merge_parts ranks piece parts k ! j) = (if j \<le> k then pos (parts ! j) else pos (parts ! (j + 1)))"
  by (auto simp: merge_parts_def splice1_def Let_def nth_append nth_list_update min_def)

lemma rank_merge_parts:
  "k + 1 < length parts \<Longrightarrow> j < length parts - 1 \<Longrightarrow>
   rank (merge_parts ranks piece parts k ! j) =
     (if j + 1 = k \<or> j = k then getRank ranks piece parts j
      else if j < k then rank (parts ! j) else rank (parts ! (j + 1)))"
proof -
  assume a: "k + 1 < length parts" "j < length parts - 1"
  let ?p1 = "parts[k - 1 := (parts ! (k - 1))\<lparr>rank := getRank ranks piece parts (k - 1)\<rparr>]"
  have "map pos ?p1 = map pos parts"
    by (cases "k - 1 < length parts")
      (auto intro!: nth_equalityI simp: nth_list_update list_update_beyond)
  then have g: "getRank ranks piece ?p1 k = getRank ranks piece parts k"
    by (rule getRank_pos_cong)
  show ?thesis using a g
    by (auto simp: merge_parts_def splice1_def Let_def nth_append nth_list_update min_def)
qed

lemma find_min_none:
  assumes "sentinels_ok parts" "mr_rank (find_min parts) = \<infinity>"
  shows "\<forall>p\<in>set parts. rank p = \<infinity>"
proof
  fix p assume "p \<in> set parts"
  then obtain j where j: "j < length parts" "p = parts ! j" by (auto simp: in_set_conv_nth)
  show "rank p = \<infinity>"
  proof (cases "j = length parts - 1")
    case True
    with assms(1) j show ?thesis by (simp add: sentinels_ok_def)
  next
    case False
    with j have "j < length (butlast parts)" by simp
    then have "butlast parts ! j \<in> set (butlast parts)" by (rule nth_mem)
    moreover have "butlast parts ! j = p" using j \<open>j < length (butlast parts)\<close>
      by (simp add: nth_butlast)
    ultimately have "mr_rank (find_min parts) \<le> rank p"
      unfolding find_min_def using scan_min_le_elem by metis
    with assms(2) show ?thesis by simp
  qed
qed

lemma find_min_some:
  assumes s: "sentinels_ok parts" and f: "mr_rank (find_min parts) \<noteq> \<infinity>"
  shows "\<exists>k. mr_index (find_min parts) = int k \<and> k + 2 < length parts \<and> spec_minimum parts k"
proof -
  let ?b = "butlast parts"
  let ?r = "scan_min ?b 0 no_min"
  have lt: "mr_rank ?r < mr_rank no_min" using f by (simp add: find_min_def no_min_def)
  from scan_min_leftmost[OF lt] obtain k where k: "k < length ?b" "mr_index ?r = int k"
    "rank (?b ! k) = mr_rank ?r" "\<forall>k'<k. mr_rank ?r < rank (?b ! k')" by auto
  have kn: "k < length parts - 1" using k(1) by simp
  have bk: "?b ! k = parts ! k" using k(1) by (simp add: nth_butlast)
  have fin: "rank (parts ! k) \<noteq> \<infinity>" using k(3) bk f by (simp add: find_min_def)
  have "k \<noteq> length parts - 2" using fin s by (auto simp: sentinels_ok_def)
  with kn have k2: "k + 2 < length parts" by arith
  have glob: "\<forall>j<length parts. rank (parts ! k) \<le> rank (parts ! j)"
  proof (intro allI impI)
    fix j assume j: "j < length parts"
    show "rank (parts ! k) \<le> rank (parts ! j)"
    proof (cases "j = length parts - 1")
      case True
      with s show ?thesis by (simp add: sentinels_ok_def)
    next
      case False
      with j have jb: "j < length ?b" by simp
      then have "?b ! j \<in> set ?b" by (rule nth_mem)
      then have "mr_rank ?r \<le> rank (?b ! j)" by (rule scan_min_le_elem)
      then show ?thesis using k(3) bk jb by (simp add: nth_butlast)
    qed
  qed
  have left: "\<forall>j<k. rank (parts ! k) < rank (parts ! j)"
  proof (intro allI impI)
    fix j assume j: "j < k"
    with k(4) have "mr_rank ?r < rank (?b ! j)" by simp
    moreover have "?b ! j = parts ! j" using j k(1) by (simp add: nth_butlast)
    ultimately show "rank (parts ! k) < rank (parts ! j)" using k(3) bk by simp
  qed
  show ?thesis
    using k(2) k2 fin glob left by (auto simp: find_min_def spec_minimum_def)
qed

lemma sentinels_merge_parts:
  assumes s: "sentinels_ok parts" and k: "k + 2 < length parts"
  shows "sentinels_ok (merge_parts ranks piece parts k)"
proof -
  let ?n = "length parts"
  have k1: "k + 1 < ?n" using k by simp
  have len: "length (merge_parts ranks piece parts k) = ?n - 1"
    using k1 by (rule length_merge_parts)
  have n1: "Suc (?n - 2) = ?n - 1" using k by arith
  have a: "rank (merge_parts ranks piece parts k ! (?n - 2)) = \<infinity>"
    using rank_merge_parts[OF k1, of "?n - 2" ranks piece] k s n1
    by (auto simp: sentinels_ok_def)
  have b: "rank (merge_parts ranks piece parts k ! (?n - 3)) = \<infinity>"
  proof (cases "k = ?n - 3")
    case True
    then have "getRank ranks piece parts k = \<infinity>" using k by (simp add: getRank_def)
    with rank_merge_parts[OF k1, of "?n - 3" ranks piece] True k show ?thesis by simp
  next
    case False
    with k have "k < ?n - 3" by arith
    then have "rank (merge_parts ranks piece parts k ! (?n - 3)) = rank (parts ! (?n - 3 + 1))"
      using rank_merge_parts[OF k1, of "?n - 3" ranks piece] k by simp
    moreover have "?n - 3 + 1 = ?n - 2" using k by arith
    ultimately show ?thesis using s by (simp add: sentinels_ok_def)
  qed
  have "?n - 1 - 1 = ?n - 2" "?n - 1 - 2 = ?n - 3" by arith+
  with len a b k show ?thesis by (simp add: sentinels_ok_def)
qed

lemma merge_loop_rule:
  assumes "P parts" and "sentinels_ok parts"
    and "it + (length parts - 2) \<le> 2 * length piece"
    and step: "\<And>ps k. P ps \<Longrightarrow> sentinels_ok ps \<Longrightarrow> k + 2 < length ps \<Longrightarrow> spec_minimum ps k \<Longrightarrow>
                 P (merge_parts ranks piece ps k)"
  shows "\<exists>ps n. merge_loop ranks piece parts (find_min parts) it = Inr (ps, n) \<and>
           n + length ps = it + length parts \<and> P ps \<and> sentinels_ok ps \<and>
           (\<forall>p\<in>set ps. rank p = \<infinity>)"
  using assms(1-3)
proof (induction "length parts" arbitrary: parts it rule: less_induct)
  case less
  show ?case
  proof (cases "mr_rank (find_min parts) = \<infinity>")
    case True
    then have "merge_loop ranks piece parts (find_min parts) it = Inr (parts, it)"
      by (simp add: merge_loop.simps[of ranks piece parts "find_min parts" it])
    moreover have "\<forall>p\<in>set parts. rank p = \<infinity>"
      using less.prems(2) True by (rule find_min_none)
    ultimately show ?thesis using less.prems by simp
  next
    case False
    from find_min_some[OF less.prems(2) False] obtain k where
      k: "mr_index (find_min parts) = int k" "k + 2 < length parts" "spec_minimum parts k"
      by blast
    let ?ps = "merge_parts ranks piece parts k"
    have len: "length ?ps = length parts - 1" using k(2) by (simp add: length_merge_parts)
    have cap: "\<not> Suc it > length piece * 2" using less.prems(3) k(2) by arith
    have at: "merge_at ranks piece parts (int k) = Inr ?ps" using k(2) by (simp add: merge_at_def)
    have unfold: "merge_loop ranks piece parts (find_min parts) it =
                  merge_loop ranks piece ?ps (find_min ?ps) (Suc it)"
      using False cap at k(1)
      by (auto simp: merge_loop.simps[of ranks piece parts "find_min parts" it])
    have P': "P ?ps" using less.prems(1,2) k(2,3) by (rule step)
    have s': "sentinels_ok ?ps" using less.prems(2) k(2) by (rule sentinels_merge_parts)
    have b': "Suc it + (length ?ps - 2) \<le> 2 * length piece" using less.prems(3) len k(2) by arith
    have "length ?ps < length parts" using len k(2) by arith
    from less.hyps[OF this P' s' b'] obtain ps n where
      r: "merge_loop ranks piece ?ps (find_min ?ps) (Suc it) = Inr (ps, n)"
         "n + length ps = Suc it + length ?ps" "P ps" "sentinels_ok ps" "\<forall>p\<in>set ps. rank p = \<infinity>"
      by blast
    have "n + length ps = it + length parts" using r(2) len k(2) by arith
    with r unfold show ?thesis by simp
  qed
qed


lemma scan_min_append:
  "scan_min (xs @ ys) j m = scan_min ys (j + int (length xs)) (scan_min xs j m)"
  by (induction xs arbitrary: j m) (simp_all add: add.assoc)

lemma length_init_parts: "length (init_parts ranks piece) = length piece - 1 + 2"
  by (simp add: init_parts_def init_pairs_def)

lemma sentinels_init_parts: "sentinels_ok (init_parts ranks piece)"
  by (simp add: sentinels_ok_def init_parts_def init_pairs_def nth_append)

lemma find_min_init_parts: "find_min (init_parts ranks piece) = init_min ranks piece"
  by (simp add: find_min_def init_min_def init_parts_def butlast_append scan_min_append)

lemma bytePairMerge_run_rule:
  assumes "P (init_parts ranks piece)"
    and step: "\<And>ps k. P ps \<Longrightarrow> sentinels_ok ps \<Longrightarrow> k + 2 < length ps \<Longrightarrow> spec_minimum ps k \<Longrightarrow>
                 P (merge_parts ranks piece ps k)"
  shows "\<exists>ps n. bytePairMerge_run ranks piece = Inr (ps, n) \<and>
           n + length ps = length (init_parts ranks piece) \<and> P ps \<and> sentinels_ok ps \<and>
           (\<forall>p\<in>set ps. rank p = \<infinity>)"
proof -
  have b: "0 + (length (init_parts ranks piece) - 2) \<le> 2 * length piece"
    by (simp add: length_init_parts)
  from merge_loop_rule[of P, OF assms(1) sentinels_init_parts b step]
  show ?thesis by (simp add: bytePairMerge_run_def find_min_init_parts)
qed

lemma merge_parts_eq_spec:
  assumes k: "k + 1 < length parts"
  shows "merge_parts ranks piece parts k = spec_merge ranks piece parts k"
proof (rule nth_equalityI)
  show len: "length (merge_parts ranks piece parts k) = length (spec_merge ranks piece parts k)"
    using k by (auto simp: length_merge_parts spec_merge_def)
  fix j assume "j < length (merge_parts ranks piece parts k)"
  then have j: "j < length parts - 1" using k by (simp add: length_merge_parts)
  have g: "\<And>i. getRank ranks piece parts i = rank (spec_rerank ranks piece parts i)"
    by (auto simp: getRank_def spec_rerank_def spec_rank_def rank_or_infinity_def)
  have p: "\<And>i. pos (spec_rerank ranks piece parts i) = pos (parts ! i)"
    by (simp add: spec_rerank_def)
  have "pos (merge_parts ranks piece parts k ! j) = pos (spec_merge ranks piece parts k ! j)"
    using pos_merge_parts[OF k j, of ranks piece] k j p
    by (auto simp: spec_merge_def nth_append simp del: upt_Suc)
  moreover have "rank (merge_parts ranks piece parts k ! j) = rank (spec_merge ranks piece parts k ! j)"
    using rank_merge_parts[OF k j, of ranks piece] k j g
    by (auto simp: spec_merge_def nth_append simp del: upt_Suc)
  ultimately show "merge_parts ranks piece parts k ! j = spec_merge ranks piece parts k ! j"
    by simp
qed

lemma map_int_upt: "map int [0..<n] = [0..int n - 1]"
  by (rule nth_equalityI) auto

lemma init_parts_eq_spec: "init_parts ranks piece = spec_init ranks piece"
proof -
  have "[0..int (length piece) - 2] = map int [0..<length piece - 1]"
  proof (cases "length piece")
    case 0
    then show ?thesis by simp
  next
    case (Suc n)
    then show ?thesis using map_int_upt[of n] by simp
  qed
  then show ?thesis
    by (simp add: init_parts_def init_pairs_def spec_init_def spec_rank_def rank_or_infinity_def
        comp_def)
qed

lemma bytePairMerge_spec_run:
  "\<exists>final. bytePairMerge ranks piece = Inr final \<and>
     spec_run ranks piece (spec_init ranks piece) final"
proof -
  let ?P = "\<lambda>ps. \<forall>f. spec_run ranks piece ps f \<longrightarrow> spec_run ranks piece (init_parts ranks piece) f"
  have "\<exists>ps n. bytePairMerge_run ranks piece = Inr (ps, n) \<and>
           n + length ps = length (init_parts ranks piece) \<and> ?P ps \<and> sentinels_ok ps \<and>
           (\<forall>p\<in>set ps. rank p = \<infinity>)"
  proof (rule bytePairMerge_run_rule)
    show "?P (init_parts ranks piece)" by simp
  next
    fix ps k
    assume P: "?P ps" and k: "k + 2 < length ps" and m: "spec_minimum ps k"
    show "?P (merge_parts ranks piece ps k)"
    proof (intro allI impI)
      fix f assume "spec_run ranks piece (merge_parts ranks piece ps k) f"
      then have "spec_run ranks piece (spec_merge ranks piece ps k) f"
        using k by (simp add: merge_parts_eq_spec)
      with m have "spec_run ranks piece ps f" by (rule spec_run.merge)
      with P show "spec_run ranks piece (init_parts ranks piece) f" by blast
    qed
  qed
  then obtain ps n where r: "bytePairMerge_run ranks piece = Inr (ps, n)" "?P ps"
    "\<forall>p\<in>set ps. rank p = \<infinity>" by blast
  from r(3) have "spec_run ranks piece ps ps" by (rule spec_run.finished)
  with r(2) have "spec_run ranks piece (init_parts ranks piece) ps" by blast
  with r(1) show ?thesis by (simp add: bytePairMerge_def init_parts_eq_spec)
qed

lemma spec_minimum_unique: "spec_minimum ps i \<Longrightarrow> spec_minimum ps j \<Longrightarrow> i = j"
proof (rule ccontr)
  assume a: "spec_minimum ps i" "spec_minimum ps j" "i \<noteq> j"
  then consider "i < j" | "j < i" by arith
  then show False
  proof cases
    case 1
    with a(2) have "rank (ps ! j) < rank (ps ! i)" by (simp add: spec_minimum_def)
    moreover from a(1,2) have "rank (ps ! i) \<le> rank (ps ! j)" by (simp add: spec_minimum_def)
    ultimately show False by simp
  next
    case 2
    with a(1) have "rank (ps ! i) < rank (ps ! j)" by (simp add: spec_minimum_def)
    moreover from a(1,2) have "rank (ps ! j) \<le> rank (ps ! i)" by (simp add: spec_minimum_def)
    ultimately show False by simp
  qed
qed

lemma spec_run_deterministic:
  "spec_run ranks piece ps f \<Longrightarrow> spec_run ranks piece ps g \<Longrightarrow> f = g"
proof (induction arbitrary: g rule: spec_run.induct)
  case (finished parts)
  from finished.prems finished.hyps show ?case
  proof (cases rule: spec_run.cases)
    case finished
    then show ?thesis by simp
  next
    case (merge i)
    then have "rank (parts ! i) \<noteq> \<infinity>" "i < length parts" by (simp_all add: spec_minimum_def)
    with finished.hyps show ?thesis by (metis nth_mem)
  qed
next
  case (merge parts i final)
  from merge.prems show ?case
  proof (cases rule: spec_run.cases)
    case finished
    from merge.hyps(1) have "rank (parts ! i) \<noteq> \<infinity>" "i < length parts"
      by (simp_all add: spec_minimum_def)
    with finished show ?thesis by (metis nth_mem)
  next
    case (merge j)
    with merge.hyps(1) have "i = j" using spec_minimum_unique by blast
    with merge merge.IH show ?thesis by simp
  qed
qed

subsection \<open>The table of the single bytes\<close>

lemma map_of_tabulate:
  "inj_on f (set xs) \<Longrightarrow> x \<in> set xs \<Longrightarrow> map_of (map (\<lambda>n. (f n, g n)) xs) (f x) = Some (g x)"
  by (induction xs) (auto simp: inj_on_def)

lemma byte_key_inj: "inj_on (\<lambda>n. bytesToKey [of_nat n :: byte]) (set [0..<256])"
proof (rule inj_onI)
  fix x y assume a: "x \<in> set [0..<256]" "y \<in> set [0..<256]"
    "bytesToKey [of_nat x :: byte] = bytesToKey [of_nat y]"
  from a(3) have "(of_nat x :: byte) = of_nat y" using bytesToKey_inj by blast
  then have "unat (of_nat x :: byte) = unat (of_nat y :: byte)" by simp
  with a(1,2) show "x = y" by (simp add: unat_of_nat)
qed

lemma byte_table_get:
  "ranks_get byte_table (bytesToKey bs) = (case bs of [b] \<Rightarrow> Some (unat b) | _ \<Rightarrow> None)"
proof (cases "\<exists>b. bs = [b]")
  case True
  then obtain b where b: "bs = [b]" by blast
  have "unat b \<in> set [0..<256]" using unat_byte_less[of b] by simp
  from map_of_tabulate[OF byte_key_inj this, of "\<lambda>n. n"]
  show ?thesis by (simp add: b ranks_get_def byte_table_def)
next
  case False
  have "bytesToKey bs \<notin> fst ` set byte_table"
  proof
    assume "bytesToKey bs \<in> fst ` set byte_table"
    then obtain n where "bytesToKey bs = bytesToKey [of_nat n :: byte]"
      by (auto simp: byte_table_def)
    then have "bs = [of_nat n]" by (rule bytesToKey_inj)
    with False show False by blast
  qed
  then have "ranks_get byte_table (bytesToKey bs) = None"
    by (simp add: ranks_get_def map_of_eq_None_iff)
  with False show ?thesis by (cases bs; cases "tl bs") auto
qed

lemma byte_table_complete: "ranks_get byte_table (bytesToKey [b]) \<noteq> None"
  by (simp add: byte_table_get)

lemmas key_simps = bytesToKey_def b64_char_def b64_alphabet_def ranks_get_def

lemmas run_simps = BytePairEncoder_encode_def bytePairMerge_def bytePairMerge_run_def init_parts_def init_pairs_def
  init_min_def no_min_def find_min_def merge_at_def merge_parts_def splice1_def getRank_def
  rank_or_infinity_def slice_def Let_def

lemma length_lookup_parts:
  "lookup_parts ranks piece ps = Inr ts \<Longrightarrow> length ts = length ps - 1"
  by (induction ranks piece ps arbitrary: ts rule: lookup_parts.induct)
    (auto simp: Let_def split: option.splits sum.splits)

lemma bytePairMerge_run_length:
  "\<exists>ps n. bytePairMerge_run ranks piece = Inr (ps, n) \<and>
     n + length ps = length (init_parts ranks piece) \<and> 2 \<le> length ps"
proof -
  from bytePairMerge_run_rule[of "\<lambda>ps. True" ranks piece]
  obtain ps n where "bytePairMerge_run ranks piece = Inr (ps, n)"
    "n + length ps = length (init_parts ranks piece)" "sentinels_ok ps" by auto
  then show ?thesis by (auto simp: sentinels_ok_def)
qed

section \<open>The claims about the pair-merge engine\<close>

text \<open>
  C1. For every rank table and every piece of at least two bytes, \<^verbatim>\<open>_bytePairMerge\<close>
  returns, without an error, the part list that the specification's merge loop reaches
  from the specification's initial list: each step merges at the leftmost global minimum
  of finite rank, re-ranks the entry before it and the entry itself from the slice to
  the boundary three positions ahead, removes the next boundary, and the run ends when
  no finite rank remains. By \<open>spec_run_deterministic\<close> that list is the only one the
  specification allows.
\<close>

theorem bytePairMerge_follows_spec:
  "2 \<le> length piece \<Longrightarrow>
   \<exists>final. bytePairMerge ranks piece = Inr final \<and>
     spec_run ranks piece (spec_init ranks piece) final"
  by (rule bytePairMerge_spec_run)

theorem bytePairMerge_follows_spec_witness:
  "2 \<le> length [97, 98, 97, 98 :: byte] \<and>
   (\<exists>final. bytePairMerge [(bytesToKey [97, 98], 7)] [97, 98, 97, 98] = Inr final \<and>
      spec_run [(bytesToKey [97, 98], 7)] [97, 98, 97, 98]
        (spec_init [(bytesToKey [97, 98], 7)] [97, 98, 97, 98]) final)"
proof -
  have h: "2 \<le> length [97, 98, 97, 98 :: byte]" by simp
  from bytePairMerge_follows_spec[OF h, of "[(bytesToKey [97, 98], 7)]"] h
  show ?thesis by blast
qed

text \<open>
  C7. For a piece of one byte \<open>b\<close>, \<^verbatim>\<open>BytePairEncoder.encode\<close> returns the one-element
  sequence holding the rank of the key of \<open>[b]\<close> when the table has that key, and fails
  with the vocabulary-gap error when it has not.
\<close>

theorem encode_single_byte:
  "BytePairEncoder_encode ranks [b] =
     (case ranks_get ranks (bytesToKey [b]) of
        Some r \<Rightarrow> Inr [r]
      | None \<Rightarrow> Inl (VocabularyGapError [b] (bytesToKey [b]) 0 1 1))"
  by (simp add: BytePairEncoder_encode_def Let_def)

theorem encode_single_byte_witness:
  "BytePairEncoder_encode [(bytesToKey [97], 5)] [97] = Inr [5] \<and>
   BytePairEncoder_encode [(bytesToKey [97], 5)] [98] = Inl (VocabularyGapError [98] ''Yg=='' 0 1 1)"
  using encode_single_byte[of "[(bytesToKey [97], 5)]" 97]
    encode_single_byte[of "[(bytesToKey [97], 5)]" 98]
  by (simp add: key_simps)

text \<open>
  C8. For every rank table that has all 256 single-byte keys and every non-empty piece
  of \<open>n\<close> bytes on which \<^verbatim>\<open>BytePairEncoder.encode\<close> succeeds, the number of tokens
  returned is between 1 and \<open>n\<close>.
\<close>

theorem encode_token_count:
  assumes "\<forall>b. ranks_get ranks (bytesToKey [b]) \<noteq> None"
    and "piece \<noteq> []" and "BytePairEncoder_encode ranks piece = Inr tokens"
  shows "1 \<le> length tokens \<and> length tokens \<le> length piece"
proof (cases "length piece = 1")
  case True
  with assms(3) show ?thesis by (auto simp: BytePairEncoder_encode_def Let_def split: option.splits)
next
  case False
  from bytePairMerge_run_length[of ranks piece] obtain ps n where
    r: "bytePairMerge_run ranks piece = Inr (ps, n)"
       "n + length ps = length (init_parts ranks piece)" "2 \<le> length ps" by blast
  from r(1) have "bytePairMerge ranks piece = Inr ps" by (simp add: bytePairMerge_def)
  with assms(3) False have "lookup_parts ranks piece ps = Inr tokens" by (simp add: BytePairEncoder_encode_def)
  then have "length tokens = length ps - 1" by (rule length_lookup_parts)
  moreover have "length ps \<le> length piece + 1"
    using r(2) assms(2) by (cases piece) (simp_all add: length_init_parts)
  ultimately show ?thesis using r(3) by arith
qed

theorem encode_token_count_witness:
  "(\<forall>b. ranks_get byte_table (bytesToKey [b]) \<noteq> None) \<and> [97, 98 :: byte] \<noteq> [] \<and>
   BytePairEncoder_encode byte_table [97, 98] = Inr [97, 98] \<and>
   1 \<le> length [97, 98 :: nat] \<and> length [97, 98 :: nat] \<le> length [97, 98 :: byte]"
proof -
  have c: "\<forall>b. ranks_get byte_table (bytesToKey [b]) \<noteq> None"
    by (simp add: byte_table_complete)
  have e: "BytePairEncoder_encode byte_table [97, 98] = Inr [97, 98]"
    by (simp add: run_simps byte_table_get merge_loop.simps)
  have n: "[97, 98 :: byte] \<noteq> []" by simp
  from encode_token_count[OF c n e] c e show ?thesis by simp
qed

text \<open>
  C9. The merge loop is a total function: from every state whose iteration count is
  within the cap it ends after at most \<open>2 \<times> pieceLength\<close> counted iterations, either
  with the parts, or with the error of the cap (or with the \<^verbatim>\<open>TypeError\<close> of an index
  outside the list). Reaching the cap with a finite minimum left fails with the
  diagnostic error, which carries the iteration count, the cap, the piece length, the
  current minimum, the number of parts and the first ten parts.
\<close>

theorem merge_loop_capped:
  "(it \<le> 2 * length piece \<longrightarrow>
      (\<exists>ps n. merge_loop ranks piece parts m it = Inr (ps, n) \<and> it \<le> n \<and> n \<le> 2 * length piece) \<or>
      (\<exists>m' ps'. merge_loop ranks piece parts m it =
          Inl (MergeLoopError (Suc (2 * length piece)) (2 * length piece) (length piece) m'
                 (length ps') (take 10 ps'))) \<or>
      merge_loop ranks piece parts m it = Inl TypeError) \<and>
   (mr_rank m \<noteq> \<infinity> \<longrightarrow> 2 * length piece \<le> it \<longrightarrow>
      merge_loop ranks piece parts m it =
        Inl (MergeLoopError (Suc it) (2 * length piece) (length piece) m (length parts)
               (take 10 parts)))"
proof
  show "it \<le> 2 * length piece \<longrightarrow>
      (\<exists>ps n. merge_loop ranks piece parts m it = Inr (ps, n) \<and> it \<le> n \<and> n \<le> 2 * length piece) \<or>
      (\<exists>m' ps'. merge_loop ranks piece parts m it =
          Inl (MergeLoopError (Suc (2 * length piece)) (2 * length piece) (length piece) m'
                 (length ps') (take 10 ps'))) \<or>
      merge_loop ranks piece parts m it = Inl TypeError"
  proof (induction ranks piece parts m it rule: merge_loop.induct)
    case (1 ranks piece parts m it)
    show ?case
    proof (intro impI)
      assume le: "it \<le> 2 * length piece"
      consider (fin) "mr_rank m = \<infinity>"
        | (cap) "mr_rank m \<noteq> \<infinity>" "Suc it > length piece * 2"
        | (err) e where "mr_rank m \<noteq> \<infinity>" "\<not> Suc it > length piece * 2"
            "merge_at ranks piece parts (mr_index m) = Inl e"
        | (go) parts' where "mr_rank m \<noteq> \<infinity>" "\<not> Suc it > length piece * 2"
            "merge_at ranks piece parts (mr_index m) = Inr parts'"
        by (cases "merge_at ranks piece parts (mr_index m)") auto
      then show "(\<exists>ps n. merge_loop ranks piece parts m it = Inr (ps, n) \<and> it \<le> n \<and> n \<le> 2 * length piece) \<or>
        (\<exists>m' ps'. merge_loop ranks piece parts m it =
            Inl (MergeLoopError (Suc (2 * length piece)) (2 * length piece) (length piece) m'
                   (length ps') (take 10 ps'))) \<or>
        merge_loop ranks piece parts m it = Inl TypeError"
      proof cases
        case fin
        then have "merge_loop ranks piece parts m it = Inr (parts, it)"
          by (simp add: merge_loop.simps[of ranks piece parts m it])
        with le show ?thesis by simp
      next
        case cap
        with le have it: "it = 2 * length piece" by arith
        from cap have "merge_loop ranks piece parts m it =
            Inl (MergeLoopError (Suc it) (length piece * 2) (length piece) m
                   (length parts) (take 10 parts))"
          by (auto simp: merge_loop.simps[of ranks piece parts m it])
        then have "merge_loop ranks piece parts m it =
            Inl (MergeLoopError (Suc (2 * length piece)) (2 * length piece) (length piece) m
                   (length parts) (take 10 parts))"
          using it by (simp add: mult.commute)
        then show ?thesis by blast
      next
        case err
        then have "e = TypeError" by (auto simp: merge_at_def split: if_splits)
        with err have "merge_loop ranks piece parts m it = Inl TypeError"
          by (auto simp: merge_loop.simps[of ranks piece parts m it])
        then show ?thesis by simp
      next
        case go
        then have eq: "merge_loop ranks piece parts m it =
            merge_loop ranks piece parts' (find_min parts') (Suc it)"
          by (auto simp: merge_loop.simps[of ranks piece parts m it])
        have "Suc it \<le> 2 * length piece" using go(2) by arith
        with "1.IH"[OF go(1,2,3)] eq show ?thesis by (auto simp: Suc_leD)
      qed
    qed
  qed
next
  show "mr_rank m \<noteq> \<infinity> \<longrightarrow> 2 * length piece \<le> it \<longrightarrow>
      merge_loop ranks piece parts m it =
        Inl (MergeLoopError (Suc it) (2 * length piece) (length piece) m (length parts)
               (take 10 parts))"
  proof (intro impI)
    assume a: "mr_rank m \<noteq> \<infinity>" "2 * length piece \<le> it"
    then have "Suc it > length piece * 2" by arith
    with a(1) have "merge_loop ranks piece parts m it =
        Inl (MergeLoopError (Suc it) (length piece * 2) (length piece) m
               (length parts) (take 10 parts))"
      by (auto simp: merge_loop.simps[of ranks piece parts m it])
    then show "merge_loop ranks piece parts m it =
        Inl (MergeLoopError (Suc it) (2 * length piece) (length piece) m (length parts)
               (take 10 parts))"
      by (simp add: mult.commute)
  qed
qed

theorem merge_loop_capped_witness:
  "(2 :: nat) \<le> 2 * length [97 :: byte] \<and>
   mr_rank \<lparr>mr_rank = 1, mr_index = 0\<rparr> \<noteq> \<infinity> \<and>
   merge_loop [] [97] [\<lparr>pos = 0, rank = 1\<rparr>, \<lparr>pos = 0, rank = 1\<rparr>, \<lparr>pos = 1, rank = \<infinity>\<rparr>]
       \<lparr>mr_rank = 1, mr_index = 0\<rparr> 2 =
     Inl (MergeLoopError 3 2 1 \<lparr>mr_rank = 1, mr_index = 0\<rparr> 3
            [\<lparr>pos = 0, rank = 1\<rparr>, \<lparr>pos = 0, rank = 1\<rparr>, \<lparr>pos = 1, rank = \<infinity>\<rparr>])"
  using merge_loop_capped[of 2 "[97]" "[]"
      "[\<lparr>pos = 0, rank = 1\<rparr>, \<lparr>pos = 0, rank = 1\<rparr>, \<lparr>pos = 1, rank = \<infinity>\<rparr>]"
      "\<lparr>mr_rank = 1, mr_index = 0\<rparr>"]
  by simp

text \<open>
  C10, as amended. For every rank table and every piece the run of \<^verbatim>\<open>_bytePairMerge\<close>
  ends without an error, so the branch of the iteration cap is never taken: after
  \<open>n\<close> iterations the part list is exactly \<open>n\<close> entries shorter than at the start and
  still holds its two sentinels, and \<open>n\<close> stays within the cap. For a non-empty piece
  the list starts with \<open>pieceLength + 1\<close> entries and \<open>n \<le> pieceLength - 1\<close>, strictly
  below the cap \<open>2 \<times> pieceLength\<close>. (\<open>length_merge_parts\<close>: one iteration removes one
  entry.)
\<close>

theorem merge_cap_unreachable:
  "\<exists>ps n. bytePairMerge_run ranks piece = Inr (ps, n) \<and>
     n + length ps = length (init_parts ranks piece) \<and> 2 \<le> length ps \<and>
     n \<le> 2 * length piece \<and>
     (piece \<noteq> [] \<longrightarrow>
        length (init_parts ranks piece) = length piece + 1 \<and> n + 1 \<le> length piece \<and>
        n < 2 * length piece)"
proof -
  from bytePairMerge_run_length[of ranks piece] obtain ps n where
    r: "bytePairMerge_run ranks piece = Inr (ps, n)"
       "n + length ps = length (init_parts ranks piece)" "2 \<le> length ps" by blast
  have a: "n \<le> 2 * length piece" using r(2,3) by (simp add: length_init_parts)
  have b: "piece \<noteq> [] \<longrightarrow>
        length (init_parts ranks piece) = length piece + 1 \<and> n + 1 \<le> length piece \<and>
        n < 2 * length piece"
    using r(2,3) by (cases piece) (auto simp: length_init_parts)
  from r a b show ?thesis by blast
qed

theorem merge_cap_unreachable_witness:
  "[97, 98 :: byte] \<noteq> [] \<and>
   (\<exists>ps n. bytePairMerge_run [(bytesToKey [97, 98], 7)] [97, 98] = Inr (ps, n) \<and>
      n + length ps = length (init_parts [(bytesToKey [97, 98], 7)] [97, 98]) \<and>
      length (init_parts [(bytesToKey [97, 98], 7)] [97, 98]) = length [97, 98 :: byte] + 1 \<and>
      n + 1 \<le> length [97, 98 :: byte] \<and> n < 2 * length [97, 98 :: byte])"
  using merge_cap_unreachable[of "[(bytesToKey [97, 98], 7)]" "[97, 98]"]
  by auto

text \<open>
  The claim as stated fails at the empty piece, which \<^verbatim>\<open>encode\<close> hands to
  \<^verbatim>\<open>_bytePairMerge\<close> like any piece whose length is not 1: the list starts with the
  two sentinels, which is \<open>pieceLength + 2\<close> entries, and the loop makes 0 iterations,
  which is more than \<open>pieceLength - 1 = -1\<close>.
\<close>

theorem merge_cap_empty_piece_counterexample:
  "init_parts [] ([] :: byte list) = [\<lparr>pos = - 1, rank = \<infinity>\<rparr>, \<lparr>pos = 0, rank = \<infinity>\<rparr>] \<and>
   length (init_parts [] ([] :: byte list)) \<noteq> length ([] :: byte list) + 1 \<and>
   bytePairMerge_run [] [] = Inr ([\<lparr>pos = - 1, rank = \<infinity>\<rparr>, \<lparr>pos = 0, rank = \<infinity>\<rparr>], 0) \<and>
   \<not> (int 0 \<le> int (length ([] :: byte list)) - 1)"
  by (simp add: run_simps merge_loop.simps)

section \<open>The claims about the tokenizer\<close>

subsection \<open>Construction and the decode table\<close>

lemma build_decoder_rank_table_of:
  "build_decoder (rank_table_of entries) d =
     Inr (d ++ map_of (rev (map (\<lambda>(bytes, r). (r, bytes)) entries)))"
proof (induction entries arbitrary: d)
  case Nil
  show ?case by (simp add: rank_table_of_def)
next
  case (Cons e entries)
  obtain bytes r where e: "e = (bytes, r)" by (cases e)
  have "build_decoder (rank_table_of (e # entries)) d =
        build_decoder (rank_table_of entries) (d(r \<mapsto> bytes))"
    by (simp add: e rank_table_of_def keyToBytes_bytesToKey)
  also have "\<dots> = Inr (d(r \<mapsto> bytes) ++ map_of (rev (map (\<lambda>(bytes, r). (r, bytes)) entries)))"
    by (rule Cons.IH)
  also have "d(r \<mapsto> bytes) ++ map_of (rev (map (\<lambda>(bytes, r). (r, bytes)) entries)) =
             d ++ map_of (rev (map (\<lambda>(bytes, r). (r, bytes)) (e # entries)))"
    by (simp add: e map_add_upd_left[symmetric] map_add_assoc[symmetric] fun_eq_iff map_add_def
        split: option.splits)
  finally show ?case .
qed

lemma Encoding_new_rank_table_of:
  assumes "RegExp pat = Some compiled"
    and "within_limit limit (length entries)" and "within_limit limit (length special)"
  shows "Encoding_new RegExp limit nm pat (rank_table_of entries) special =
     Inr \<lparr>name = nm, patStr = pat, mergeableRanks = rank_table_of entries,
          specialTokens = special,
          decoder = map_of (rev (map (\<lambda>(bytes, r). (r, bytes)) entries)),
          specialTokensDecoder = build_special_decoder special Map.empty,
          pattern = compiled,
          specialPattern = (if length special > 0 then Some (map fst special) else None),
          maxTokenValue =
            max (if length entries > 0 then max_of (map snd (rank_table_of entries)) else - 1)
                (if length special > 0 then max_of (map snd special) else - 1)\<rparr>"
proof -
  have "length (rank_table_of entries) = length entries" by (simp add: rank_table_of_def)
  with assms show ?thesis
    by (simp add: Encoding_new_def build_decoder_rank_table_of Math_max_def)
qed

lemma Encoding_new_cases:
  assumes "Encoding_new RegExp limit nm pat ranks special = Inr enc"
  obtains dec compiled mm ms where "build_decoder ranks Map.empty = Inr dec"
    "RegExp pat = Some compiled"
    "enc = \<lparr>name = nm, patStr = pat, mergeableRanks = ranks, specialTokens = special,
            decoder = dec,
            specialTokensDecoder = build_special_decoder special Map.empty,
            pattern = compiled,
            specialPattern = (if length special > 0 then Some (map fst special) else None),
            maxTokenValue = max mm ms\<rparr>"
proof (cases "build_decoder ranks Map.empty")
  case (Inl e)
  with assms show ?thesis by (simp add: Encoding_new_def)
next
  case (Inr dec)
  show ?thesis
  proof (cases "RegExp pat")
    case None
    with Inr assms show ?thesis by (simp add: Encoding_new_def)
  next
    case (Some compiled)
    show ?thesis
    proof (cases "if length ranks > 0 then Math_max limit (map snd ranks) else Inr (- 1)")
      case (Inl e)
      with Inr Some assms show ?thesis by (simp add: Encoding_new_def)
    next
      case mm: (Inr mm)
      show ?thesis
      proof (cases "if length special > 0 then Math_max limit (map snd special) else Inr (- 1)")
        case (Inl e)
        with Inr Some mm assms show ?thesis by (simp add: Encoding_new_def)
      next
        case ms: (Inr ms)
        have "enc = \<lparr>name = nm, patStr = pat, mergeableRanks = ranks, specialTokens = special,
            decoder = dec,
            specialTokensDecoder = build_special_decoder special Map.empty,
            pattern = compiled,
            specialPattern = (if length special > 0 then Some (map fst special) else None),
            maxTokenValue = max mm ms\<rparr>"
          using Inr Some mm ms assms by (simp add: Encoding_new_def)
        with Inr Some show ?thesis by (rule that)
      qed
    qed
  qed
qed

lemma Encoding_new_fields:
  assumes "Encoding_new RegExp limit nm pat ranks special = Inr enc"
  shows "mergeableRanks enc = ranks" "specialTokens enc = special"
    "specialPattern enc = (if length special > 0 then Some (map fst special) else None)"
    "build_decoder ranks Map.empty = Inr (decoder enc)" "RegExp pat = Some (pattern enc)"
  using assms by (auto elim!: Encoding_new_cases)

lemma ranks_get_rank_table_of:
  "ranks_get (rank_table_of entries) (bytesToKey bytes) = map_of entries bytes"
  by (induction entries) (auto simp: ranks_get_def rank_table_of_def dest: bytesToKey_inj)

lemma decoder_inverse:
  assumes "distinct (map fst entries)" "distinct (map snd entries)"
  shows "map_of (rev (map (\<lambda>(bytes, r). (r, bytes)) entries)) r = Some bytes \<longleftrightarrow>
         map_of entries bytes = Some r"
proof -
  let ?sw = "rev (map (\<lambda>(bytes, r). (r, bytes)) entries)"
  have "map fst ?sw = rev (map snd entries)" by (simp add: rev_map comp_def case_prod_beta)
  then have d: "distinct (map fst ?sw)" using assms(2) by simp
  have "map_of ?sw r = Some bytes \<longleftrightarrow> (r, bytes) \<in> set ?sw"
    using d by (rule map_of_eq_Some_iff)
  also have "\<dots> \<longleftrightarrow> (bytes, r) \<in> set entries" by auto
  also have "\<dots> \<longleftrightarrow> map_of entries bytes = Some r"
    using assms(1) by (simp add: map_of_eq_Some_iff)
  finally show ?thesis .
qed

lemma decode_ignore_eq_replace: "decode enc tokens Ignore = decode enc tokens Replace"
  by (simp add: decode_def split: sum.splits option.splits)


lemmas string_simps = jsstr_def TextEncoder_encode_def utf8_bytes_def is_lead_def is_trail_def
  is_surrogate_def TextDecoder_decode_def utf16_units_def

lemma within_limit_0: "within_limit limit 0"
  by (simp add: within_limit_def split: option.splits)

lemma Encoding_new_succeeds_iff:
  "(\<exists>e. Encoding_new RegExp limit nm pat (rank_table_of entries) special = Inr e) \<longleftrightarrow>
   RegExp pat \<noteq> None \<and> within_limit limit (length entries) \<and>
   within_limit limit (length special)"
proof
  assume "\<exists>e. Encoding_new RegExp limit nm pat (rank_table_of entries) special = Inr e"
  then obtain e where e: "Encoding_new RegExp limit nm pat (rank_table_of entries) special = Inr e"
    by blast
  have len: "length (rank_table_of entries) = length entries" by (simp add: rank_table_of_def)
  from e obtain compiled where c: "RegExp pat = Some compiled"
    by (rule Encoding_new_cases)
  have a: "within_limit limit (length entries)"
  proof (rule ccontr)
    assume n: "\<not> within_limit limit (length entries)"
    then have "length entries > 0" using within_limit_0[of limit] by (cases entries) auto
    with n c e len show False
      by (simp add: Encoding_new_def build_decoder_rank_table_of Math_max_def)
  qed
  have b: "within_limit limit (length special)"
  proof (rule ccontr)
    assume n: "\<not> within_limit limit (length special)"
    then have "length special > 0" using within_limit_0[of limit] by (cases special) auto
    with n c e len show False
      by (simp add: Encoding_new_def build_decoder_rank_table_of Math_max_def
          split: sum.splits if_splits)
  qed
  from a b c show "RegExp pat \<noteq> None \<and> within_limit limit (length entries) \<and>
    within_limit limit (length special)" by simp
next
  assume "RegExp pat \<noteq> None \<and> within_limit limit (length entries) \<and>
    within_limit limit (length special)"
  then obtain compiled where "RegExp pat = Some compiled" "within_limit limit (length entries)"
    "within_limit limit (length special)" by auto
  then show "\<exists>e. Encoding_new RegExp limit nm pat (rank_table_of entries) special = Inr e"
    by (simp add: Encoding_new_rank_table_of)
qed

lemma host_RegExp_any: "host_RegExp (jsstr ''[^]+'') = Some (\<lambda>t. if t = [] then None else Some [t])"
  by (simp add: host_RegExp_def)

lemma host_pattern:
  assumes "Encoding_new host_RegExp limit nm (jsstr ''[^]+'') ranks special = Inr enc"
  shows "pattern enc = (\<lambda>t. if t = [] then None else Some [t])"
proof -
  from Encoding_new_fields(5)[OF assms]
  have "Some (pattern enc) = Some (\<lambda>t. if t = [] then None else Some [t])"
    by (simp only: host_RegExp_any)
  then show ?thesis by simp
qed

text \<open>
  C5, as amended. Construction has no check for a repeated rank. For a rank table
  keyed by byte sequences, whenever construction returns a tokenizer its decode table
  maps each rank to the byte sequence of the last entry that has it, and when no two
  entries share a byte sequence or a rank it is the inverse mapping of the rank table.
  Whether construction returns a tokenizer does not depend on the ranks: two tables
  with the same byte sequences in the same order are both accepted or both refused.
\<close>

theorem Encoding_new_decoder:
  "(Encoding_new RegExp limit nm pat (rank_table_of entries) special = Inr enc \<longrightarrow>
      decoder enc = map_of (rev (map (\<lambda>(bytes, r). (r, bytes)) entries)) \<and>
      (distinct (map fst entries) \<longrightarrow> distinct (map snd entries) \<longrightarrow>
         (\<forall>bytes r. decoder enc r = Some bytes \<longleftrightarrow>
            ranks_get (rank_table_of entries) (bytesToKey bytes) = Some r))) \<and>
   (map fst entries' = map fst entries \<longrightarrow>
      (\<exists>e. Encoding_new RegExp limit nm pat (rank_table_of entries') special = Inr e) =
      (\<exists>e. Encoding_new RegExp limit nm pat (rank_table_of entries) special = Inr e))"
proof (intro conjI impI)
  assume built: "Encoding_new RegExp limit nm pat (rank_table_of entries) special = Inr enc"
  from Encoding_new_fields(4)[OF built]
  show dec: "decoder enc = map_of (rev (map (\<lambda>(bytes, r). (r, bytes)) entries))"
    by (simp add: build_decoder_rank_table_of)
  assume "distinct (map fst entries)" "distinct (map snd entries)"
  then show "\<forall>bytes r. decoder enc r = Some bytes \<longleftrightarrow>
            ranks_get (rank_table_of entries) (bytesToKey bytes) = Some r"
    by (simp add: dec ranks_get_rank_table_of decoder_inverse)
next
  assume "map fst entries' = map fst entries"
  then have "length (map fst entries') = length (map fst entries)" by simp
  then have "length entries' = length entries" by simp
  then show "(\<exists>e. Encoding_new RegExp limit nm pat (rank_table_of entries') special = Inr e) =
      (\<exists>e. Encoding_new RegExp limit nm pat (rank_table_of entries) special = Inr e)"
    by (simp only: Encoding_new_succeeds_iff)
qed

theorem Encoding_new_decoder_witness:
  "map fst [([0x61 :: byte], 0 :: nat), ([0x62], 0)] =
     map fst [([0x61 :: byte], 0 :: nat), ([0x62], 1)] \<and>
   distinct (map fst [([0x61 :: byte], 0 :: nat), ([0x62], 1)]) \<and>
   distinct (map snd [([0x61 :: byte], 0 :: nat), ([0x62], 1)]) \<and>
   (\<exists>enc. Encoding_new host_RegExp (Some 65535) [] (jsstr ''[^]+'')
            (rank_table_of [([0x61], 0), ([0x62], 1)]) [] = Inr enc \<and>
      decoder enc 1 = Some [0x62] \<and>
      (\<forall>bytes r. decoder enc r = Some bytes \<longleftrightarrow>
         ranks_get (rank_table_of [([0x61], 0), ([0x62], 1)]) (bytesToKey bytes) = Some r)) \<and>
   (\<exists>e. Encoding_new host_RegExp (Some 65535) [] (jsstr ''[^]+'')
          (rank_table_of [([0x61], 0), ([0x62], 0)]) [] = Inr e)"
proof -
  let ?entries = "[([0x61 :: byte], 0 :: nat), ([0x62], 1)]"
  let ?dup = "[([0x61 :: byte], 0 :: nat), ([0x62], 0)]"
  have m: "map fst ?dup = map fst ?entries" by simp
  have d: "distinct (map fst ?entries)" "distinct (map snd ?entries)" by simp_all
  obtain enc where
    built: "Encoding_new host_RegExp (Some 65535) [] (jsstr ''[^]+'') (rank_table_of ?entries) [] =
      Inr enc"
    using Encoding_new_rank_table_of[where RegExp = host_RegExp and pat = "jsstr ''[^]+''"
        and limit = "Some 65535" and entries = ?entries and special = "[]"
        and compiled = "\<lambda>t. if t = [] then None else Some [t]"]
    by (simp add: host_RegExp_any within_limit_def)
  note th = Encoding_new_decoder[where RegExp = host_RegExp and limit = "Some 65535" and nm = "[]"
      and pat = "jsstr ''[^]+''" and entries = ?entries and special = "[]" and entries' = ?dup
      and enc = enc]
  from th[THEN conjunct1, rule_format, OF built]
  have e: "decoder enc = map_of (rev (map (\<lambda>(bytes, r). (r, bytes)) ?entries))"
    "distinct (map fst ?entries) \<longrightarrow> distinct (map snd ?entries) \<longrightarrow>
       (\<forall>bytes r. decoder enc r = Some bytes \<longleftrightarrow>
          ranks_get (rank_table_of ?entries) (bytesToKey bytes) = Some r)"
    by blast+
  from e(1) have one: "decoder enc 1 = Some [0x62]" by simp
  from th[THEN conjunct2, rule_format, OF m] built
  have "\<exists>e. Encoding_new host_RegExp (Some 65535) [] (jsstr ''[^]+'') (rank_table_of ?dup) [] = Inr e"
    by blast
  with built one e(2) m d show ?thesis by blast
qed

text \<open>
  The claim as stated fails: the byte sequences \<open>[0x61]\<close> and \<open>[0x62]\<close> share the rank 0,
  construction succeeds, and the decode table holds only the second of them.
\<close>

theorem Encoding_new_duplicate_rank_counterexample:
  "\<exists>enc. Encoding_new host_RegExp (Some 65535) [] (jsstr ''[^]+'')
           (rank_table_of [([0x61], 0), ([0x62], 0)]) [] = Inr enc \<and>
     decoder enc 0 = Some [0x62] \<and>
     ranks_get (mergeableRanks enc) (bytesToKey [0x61]) = Some 0 \<and>
     ranks_get (mergeableRanks enc) (bytesToKey [0x62]) = Some 0"
  by (simp add: Encoding_new_rank_table_of[where RegExp = host_RegExp
        and compiled = "\<lambda>t. if t = [] then None else Some [t]"]
      host_RegExp_any within_limit_def ranks_get_rank_table_of)

text \<open>
  C4 fails on the code. With \<^verbatim>\<open>'ignore'\<close> the decoder is built exactly as with
  \<^verbatim>\<open>'replace'\<close>, so \<open>decode_ignore_eq_replace\<close> holds for all tokens; the bytes
  \<open>61 FF 62\<close> decode to the text \<open>a\<close>, U+FFFD, \<open>b\<close> and not to \<open>ab\<close>.
\<close>

theorem decode_ignore_keeps_replacement:
  "\<exists>enc. Encoding_new (\<lambda>p. Some (\<lambda>t. Some [t])) (Some 65535) [] []
           (rank_table_of [([0x61], 0), ([0xFF], 1), ([0x62], 2)]) [] = Inr enc \<and>
     decodeBytes enc [0, 1, 2] = Inr [0x61, 0xFF, 0x62] \<and>
     decode enc [0, 1, 2] Ignore = Inr [0x61, 0xFFFD, 0x62] \<and>
     decode enc [0, 1, 2] Replace = Inr [0x61, 0xFFFD, 0x62] \<and>
     jsstr ''ab'' = [0x61, 0x62]"
  by (simp add: Encoding_new_rank_table_of within_limit_def decode_def decodeBytes_def string_simps)

text \<open>
  C6 fails on the code. The string \<^verbatim>\<open>constructor\<close> is no special token, yet the
  property read finds \<^verbatim>\<open>Object.prototype.constructor\<close> and the function returns it:
  no \<^verbatim>\<open>UnknownTokenError\<close> when the rank table lacks the string, and not its rank
  when the rank table has it.
\<close>

theorem encodeSingleToken_inherited_property:
  "\<exists>enc. Encoding_new (\<lambda>p. Some (\<lambda>t. Some [t])) (Some 65535) [] [] (rank_table_of [([0x61], 0)])
           [(jsstr ''<|endoftext|>'', 100257)] = Inr enc \<and>
     map_of (specialTokens enc) (jsstr ''constructor'') = None \<and>
     ranks_get (mergeableRanks enc) (bytesToKey (TextEncoder_encode (jsstr ''constructor''))) = None \<and>
     encodeSingleToken enc (Str (jsstr ''constructor'')) = Inr (Inherited (jsstr ''constructor''))"
  by (simp add: Encoding_new_rank_table_of within_limit_def ranks_get_rank_table_of encodeSingleToken_def
      object_get_def Object_prototype_keys_def string_simps)

theorem encodeSingleToken_shadowed_rank:
  "\<exists>enc. Encoding_new (\<lambda>p. Some (\<lambda>t. Some [t])) (Some 65535) [] []
           (rank_table_of [(TextEncoder_encode (jsstr ''constructor''), 5)])
           [(jsstr ''<|endoftext|>'', 100257)] = Inr enc \<and>
     ranks_get (mergeableRanks enc) (bytesToKey (TextEncoder_encode (jsstr ''constructor''))) = Some 5 \<and>
     encodeSingleToken enc (Str (jsstr ''constructor'')) = Inr (Inherited (jsstr ''constructor''))"
  by (simp add: Encoding_new_rank_table_of within_limit_def ranks_get_rank_table_of encodeSingleToken_def
      object_get_def Object_prototype_keys_def string_simps)

subsection \<open>Special tokens in \<^verbatim>\<open>encode\<close>\<close>



























subsection \<open>Every segment of the final part list is a key of the table\<close>

lemma nth_init_parts:
  assumes "piece \<noteq> []" "j < length piece + 1"
  shows "pos (init_parts ranks piece ! j) = int j"
proof -
  have "length piece - 1 + 2 = length piece + 1" using assms(1) by (cases piece) auto
  then consider "j < length piece - 1" | "j = length piece - 1" | "j = length piece"
    using assms(2) by arith
  then show ?thesis
  proof cases
    case 1
    then show ?thesis by (simp add: init_parts_def init_pairs_def nth_append)
  next
    case 2
    then show ?thesis using assms(1)
      by (cases piece) (simp_all add: init_parts_def init_pairs_def nth_append)
  next
    case 3
    then show ?thesis using assms(1)
      by (cases piece) (simp_all add: init_parts_def init_pairs_def nth_append)
  qed
qed

lemma rank_init_parts:
  assumes "j < length piece - 1"
  shows "rank (init_parts ranks piece ! j) =
         rank_or_infinity (ranks_get ranks (bytesToKey (slice piece (int j) (int j + 2))))"
  using assms by (simp add: init_parts_def init_pairs_def nth_append)

lemma slice_single: "j < length xs \<Longrightarrow> slice xs (int j) (int j + 1) = [xs ! j]"
proof -
  assume j: "j < length xs"
  then have "take 1 (drop j xs) = [xs ! j]"
    by (metis Cons_nth_drop_Suc One_nat_def take0 take_Suc_Cons)
  moreover have "nat (min (int j + 1) (int (length xs)) - int j) = 1" using j by simp
  ultimately show ?thesis using j by (simp add: slice_def Let_def min_def)
qed

lemma init_parts_invariants:
  assumes "piece \<noteq> []" "\<forall>b\<in>set piece. ranks_get ranks (bytesToKey [b]) \<noteq> None"
  shows "boundaries_ok piece (init_parts ranks piece)"
    and "ranks_ok ranks piece (init_parts ranks piece)"
    and "segments_ok ranks piece (init_parts ranks piece)"
proof -
  have len: "length (init_parts ranks piece) = length piece + 1"
    using assms(1) by (cases piece) (simp_all add: length_init_parts)
  show "boundaries_ok piece (init_parts ranks piece)"
    unfolding boundaries_ok_def len using nth_init_parts[OF assms(1)] by simp
  show "ranks_ok ranks piece (init_parts ranks piece)"
    unfolding ranks_ok_def len
  proof (intro allI impI)
    fix j assume j: "j + 2 < length piece + 1"
    then have "j < length piece - 1" by arith
    then have "rank (init_parts ranks piece ! j) =
         rank_or_infinity (ranks_get ranks (bytesToKey (slice piece (int j) (int j + 2))))"
      by (rule rank_init_parts)
    moreover have "pos (init_parts ranks piece ! j) = int j"
      "pos (init_parts ranks piece ! (j + 2)) = int j + 2"
      using nth_init_parts[OF assms(1), of j ranks] nth_init_parts[OF assms(1), of "j + 2" ranks] j
      by simp_all
    ultimately show "rank (init_parts ranks piece ! j) =
          rank_or_infinity (ranks_get ranks (bytesToKey
             (slice piece (pos (init_parts ranks piece ! j)) (pos (init_parts ranks piece ! (j + 2))))))"
      by simp
  qed
  show "segments_ok ranks piece (init_parts ranks piece)"
    unfolding segments_ok_def len
  proof (intro allI impI)
    fix j assume j: "j + 1 < length piece + 1"
    then have jl: "j < length piece" by simp
    have "pos (init_parts ranks piece ! j) = int j"
      "pos (init_parts ranks piece ! (j + 1)) = int j + 1"
      using nth_init_parts[OF assms(1), of j ranks] nth_init_parts[OF assms(1), of "j + 1" ranks] j
      by simp_all
    moreover have "slice piece (int j) (int j + 1) = [piece ! j]" using jl by (rule slice_single)
    moreover have "piece ! j \<in> set piece" using jl by simp
    ultimately show "ranks_get ranks (bytesToKey
        (slice piece (pos (init_parts ranks piece ! j)) (pos (init_parts ranks piece ! (j + 1))))) \<noteq> None"
      using assms(2) by simp
  qed
qed

lemma merge_parts_invariants:
  assumes b: "boundaries_ok piece ps" and r: "ranks_ok ranks piece ps"
    and s: "segments_ok ranks piece ps" and k: "k + 2 < length ps" and m: "spec_minimum ps k"
  shows "boundaries_ok piece (merge_parts ranks piece ps k)"
    and "ranks_ok ranks piece (merge_parts ranks piece ps k)"
    and "segments_ok ranks piece (merge_parts ranks piece ps k)"
proof -
  let ?n = "length ps"
  let ?ps = "merge_parts ranks piece ps k"
  let ?f = "\<lambda>i. if i \<le> k then i else i + 1"
  have k1: "k + 1 < ?n" using k by simp
  have len: "length ?ps = ?n - 1" using k1 by (rule length_merge_parts)
  have p: "pos (?ps ! i) = pos (ps ! ?f i)" if "i < ?n - 1" for i
    using pos_merge_parts[OF k1 that, of ranks piece] by simp
  have g: "getRank ranks piece ps j =
      rank_or_infinity (ranks_get ranks (bytesToKey (slice piece (pos (ps ! j)) (pos (ps ! (j + 3))))))"
    if "j + 3 < ?n" for j
    using that by (simp add: getRank_def)
  show "boundaries_ok piece ?ps"
    unfolding boundaries_ok_def len
  proof (intro conjI allI impI)
    fix i j assume ij: "i < j" "j < ?n - 1"
    then have "?f i < ?f j" "?f j < ?n" by auto
    with b have "pos (ps ! ?f i) < pos (ps ! ?f j)" unfolding boundaries_ok_def by blast
    then show "pos (?ps ! i) < pos (?ps ! j)" using p[of i] p[of j] ij by simp
  next
    show "pos (?ps ! 0) = 0" using p[of 0] k b by (simp add: boundaries_ok_def)
  next
    have "?n - 1 - 1 < ?n - 1" using k by arith
    moreover have "?f (?n - 1 - 1) = ?n - 1" using k by auto
    ultimately show "pos (?ps ! (?n - 1 - 1)) = int (length piece)"
      using p[of "?n - 1 - 1"] b by (simp add: boundaries_ok_def)
  qed
  show "ranks_ok ranks piece ?ps"
    unfolding ranks_ok_def len
  proof (intro allI impI)
    fix j assume j: "j + 2 < ?n - 1"
    then have j1: "j < ?n - 1" "j + 2 < ?n - 1" by arith+
    note pj = p[OF j1(1)] p[OF j1(2)]
    note rk = rank_merge_parts[OF k1 j1(1), of ranks piece]
    consider (a) "j + 1 = k" | (b) "j = k" | (c) "j + 1 < k" | (d) "k < j" by arith
    then show "rank (?ps ! j) = rank_or_infinity (ranks_get ranks (bytesToKey
        (slice piece (pos (?ps ! j)) (pos (?ps ! (j + 2))))))"
    proof cases
      case a
      then have "j + 3 < ?n" using k by arith
      from g[OF this] a rk pj show ?thesis by (simp add: numeral_3_eq_3)
    next
      case b
      then have "j + 3 < ?n" using j by arith
      from g[OF this] b rk pj show ?thesis by (simp add: numeral_3_eq_3)
    next
      case c
      then have "rank (ps ! j) = rank_or_infinity (ranks_get ranks (bytesToKey
          (slice piece (pos (ps ! j)) (pos (ps ! (j + 2))))))"
        using r j unfolding ranks_ok_def by simp
      with c rk pj show ?thesis by simp
    next
      case d
      have "j + 1 + 2 < ?n" using j by arith
      then have "rank (ps ! (j + 1)) = rank_or_infinity (ranks_get ranks (bytesToKey
          (slice piece (pos (ps ! (j + 1))) (pos (ps ! (j + 1 + 2))))))"
        using r unfolding ranks_ok_def by blast
      with d rk pj show ?thesis by (simp add: numeral_3_eq_3 add.commute)
    qed
  qed
  show "segments_ok ranks piece ?ps"
    unfolding segments_ok_def len
  proof (intro allI impI)
    fix j assume j: "j + 1 < ?n - 1"
    then have j1: "j < ?n - 1" "j + 1 < ?n - 1" by arith+
    note pj = p[OF j1(1)] p[OF j1(2)]
    consider (a) "j < k" | (b) "j = k" | (c) "k < j" by arith
    then show "ranks_get ranks (bytesToKey (slice piece (pos (?ps ! j)) (pos (?ps ! (j + 1))))) \<noteq> None"
    proof cases
      case a
      have "ranks_get ranks (bytesToKey (slice piece (pos (ps ! j)) (pos (ps ! (j + 1))))) \<noteq> None"
        using s j unfolding segments_ok_def by simp
      with a pj show ?thesis by simp
    next
      case b
      have "rank (ps ! k) \<noteq> \<infinity>" using m by (simp add: spec_minimum_def)
      moreover have "rank (ps ! k) = rank_or_infinity (ranks_get ranks (bytesToKey
          (slice piece (pos (ps ! k)) (pos (ps ! (k + 2))))))"
        using r k unfolding ranks_ok_def by blast
      ultimately have "ranks_get ranks (bytesToKey
          (slice piece (pos (ps ! k)) (pos (ps ! (k + 2))))) \<noteq> None"
        by (auto simp: rank_or_infinity_def split: option.splits)
      with b pj show ?thesis by simp
    next
      case c
      have "j + 1 + 1 < ?n" using j by arith
      then have "ranks_get ranks (bytesToKey
          (slice piece (pos (ps ! (j + 1))) (pos (ps ! (j + 1 + 1))))) \<noteq> None"
        using s unfolding segments_ok_def by blast
      with c pj show ?thesis by simp
    qed
  qed
qed


lemma length_segments: "length (segments piece ps) = length ps - 1"
  by (induction piece ps rule: segments.induct) simp_all

lemma nth_segments:
  "j + 1 < length ps \<Longrightarrow>
   segments piece ps ! j = slice piece (pos (ps ! j)) (pos (ps ! (j + 1)))"
proof (induction piece ps arbitrary: j rule: segments.induct)
  case (1 piece p q rest)
  show ?case
  proof (cases j)
    case 0
    then show ?thesis by simp
  next
    case (Suc i)
    with "1.prems" have "i + 1 < length (q # rest)" by simp
    from "1.IH"[OF this] Suc show ?thesis by simp
  qed
qed simp_all

lemma lookup_parts_segments:
  assumes "\<forall>s\<in>set (segments piece ps). ranks_get ranks (bytesToKey s) \<noteq> None"
  shows "\<exists>ts. lookup_parts ranks piece ps = Inr ts \<and>
           list_all2 (\<lambda>s t. ranks_get ranks (bytesToKey s) = Some t) (segments piece ps) ts"
  using assms
proof (induction ranks piece ps rule: lookup_parts.induct)
  case (1 ranks piece p q rest)
  from "1.prems" obtain t where
    t: "ranks_get ranks (bytesToKey (slice piece (pos p) (pos q))) = Some t" by auto
  from "1.prems" have "\<forall>s\<in>set (segments piece (q # rest)). ranks_get ranks (bytesToKey s) \<noteq> None"
    by simp
  with "1.IH"[OF refl refl t] obtain ts where
    ts: "lookup_parts ranks piece (q # rest) = Inr ts"
      "list_all2 (\<lambda>s t. ranks_get ranks (bytesToKey s) = Some t) (segments piece (q # rest)) ts"
    by blast
  have "lookup_parts ranks piece (p # q # rest) = Inr (t # ts)"
    using t ts(1) by (simp add: Let_def)
  with t ts(2) show ?case by simp
qed simp_all

lemma slice_append:
  assumes "0 \<le> a" "a \<le> b" "b \<le> c" "c \<le> int (length xs)"
  shows "slice xs a b @ slice xs b c = slice xs a c"
proof -
  have s: "slice xs a b = take (nat b - nat a) (drop (nat a) xs)"
    "slice xs b c = take (nat c - nat b) (drop (nat b) xs)"
    "slice xs a c = take (nat c - nat a) (drop (nat a) xs)"
    using assms by (simp_all add: slice_def Let_def min_def nat_diff_distrib)
  have n: "nat a \<le> nat b" "nat b \<le> nat c" using assms by simp_all
  have "take (nat c - nat a) (drop (nat a) xs) =
        take ((nat b - nat a) + (nat c - nat b)) (drop (nat a) xs)"
    using n by simp
  also have "\<dots> = take (nat b - nat a) (drop (nat a) xs) @
                   take (nat c - nat b) (drop (nat b - nat a) (drop (nat a) xs))"
    by (rule take_add)
  also have "drop (nat b - nat a) (drop (nat a) xs) = drop (nat b) xs" using n by simp
  finally show ?thesis unfolding s by simp
qed

lemma concat_segments_sorted:
  assumes "sorted (map pos ps)" "\<forall>p\<in>set ps. 0 \<le> pos p \<and> pos p \<le> int (length piece)" "ps \<noteq> []"
  shows "concat (segments piece ps) = slice piece (pos (hd ps)) (pos (last ps))"
  using assms
proof (induction piece ps rule: segments.induct)
  case (1 piece p q rest)
  have "concat (segments piece (q # rest)) = slice piece (pos (hd (q # rest))) (pos (last (q # rest)))"
    using "1.prems" by (intro "1.IH") simp_all
  then have c: "concat (segments piece (p # q # rest)) =
      slice piece (pos p) (pos q) @ slice piece (pos q) (pos (last (q # rest)))" by simp
  have l: "last (q # rest) \<in> set (q # rest)" by (rule last_in_set) simp
  have "pos q \<le> pos (last (q # rest))"
  proof (cases "rest = []")
    case True
    then show ?thesis by simp
  next
    case False
    then have "last (q # rest) \<in> set rest" by simp
    with "1.prems"(1) show ?thesis by auto
  qed
  moreover have "pos p \<le> pos q" "0 \<le> pos p" using "1.prems" by simp_all
  moreover have "pos (last (q # rest)) \<le> int (length piece)" using l "1.prems"(2) by auto
  ultimately have "slice piece (pos p) (pos q) @ slice piece (pos q) (pos (last (q # rest))) =
      slice piece (pos p) (pos (last (q # rest)))"
    by (intro slice_append)
  with c show ?case by simp
next
  case (2 piece p)
  then show ?case by (simp add: slice_def Let_def)
next
  case (3 piece)
  then show ?case by simp
qed

lemma slice_whole: "slice xs 0 (int (length xs)) = xs"
  by (simp add: slice_def)

lemma concat_segments:
  assumes b: "boundaries_ok piece ps" and n: "2 \<le> length ps"
  shows "concat (segments piece ps) = piece"
proof -
  have mono: "pos (ps ! i) \<le> pos (ps ! j)" if "i \<le> j" "j < length ps" for i j
  proof (cases "i = j")
    case True
    then show ?thesis by simp
  next
    case False
    with that b show ?thesis unfolding boundaries_ok_def by (simp add: less_imp_le)
  qed
  have srt: "sorted (map pos ps)"
    using mono by (simp add: sorted_iff_nth_mono)
  have bounds: "\<forall>p\<in>set ps. 0 \<le> pos p \<and> pos p \<le> int (length piece)"
  proof
    fix p assume "p \<in> set ps"
    then obtain j where j: "j < length ps" "p = ps ! j" by (auto simp: in_set_conv_nth)
    have "pos (ps ! 0) \<le> pos (ps ! j)" using j by (intro mono) simp_all
    moreover have "pos (ps ! j) \<le> pos (ps ! (length ps - 1))" using j by (intro mono) simp_all
    ultimately show "0 \<le> pos p \<and> pos p \<le> int (length piece)"
      using b j unfolding boundaries_ok_def by simp
  qed
  have ne: "ps \<noteq> []" using n by auto
  have "concat (segments piece ps) = slice piece (pos (hd ps)) (pos (last ps))"
    using srt bounds ne by (rule concat_segments_sorted)
  also have "pos (hd ps) = 0" using b ne by (simp add: boundaries_ok_def hd_conv_nth)
  also have "pos (last ps) = int (length piece)"
    using b ne by (simp add: boundaries_ok_def last_conv_nth)
  finally show ?thesis by (simp add: slice_whole)
qed

lemma BytePairEncoder_encode_known:
  assumes "piece \<noteq> []" "\<forall>b\<in>set piece. ranks_get ranks (bytesToKey [b]) \<noteq> None"
  shows "\<exists>segs ts. BytePairEncoder_encode ranks piece = Inr ts \<and> concat segs = piece \<and>
           list_all2 (\<lambda>s t. ranks_get ranks (bytesToKey s) = Some t) segs ts"
proof (cases "length piece = 1")
  case True
  then obtain b where b: "piece = [b]" by (cases piece) auto
  with assms(2) obtain t where t: "ranks_get ranks (bytesToKey [b]) = Some t" by auto
  then have "BytePairEncoder_encode ranks piece = Inr [t]"
    by (simp add: b BytePairEncoder_encode_def Let_def)
  moreover have "concat [piece] = piece" by simp
  moreover have "list_all2 (\<lambda>s t. ranks_get ranks (bytesToKey s) = Some t) [piece] [t]"
    using t b by simp
  ultimately show ?thesis by blast
next
  case False
  let ?P = "\<lambda>ps. boundaries_ok piece ps \<and> ranks_ok ranks piece ps \<and> segments_ok ranks piece ps"
  have "\<exists>ps n. bytePairMerge_run ranks piece = Inr (ps, n) \<and>
           n + length ps = length (init_parts ranks piece) \<and> ?P ps \<and> sentinels_ok ps \<and>
           (\<forall>p\<in>set ps. rank p = \<infinity>)"
  proof (rule bytePairMerge_run_rule)
    show "?P (init_parts ranks piece)" using init_parts_invariants[OF assms] by simp
  next
    fix ps k assume "?P ps" "k + 2 < length ps" "spec_minimum ps k"
    then show "?P (merge_parts ranks piece ps k)"
      using merge_parts_invariants[of piece ps ranks k] by simp
  qed
  then obtain ps n where r: "bytePairMerge_run ranks piece = Inr (ps, n)"
    "boundaries_ok piece ps" "segments_ok ranks piece ps" "sentinels_ok ps" by blast
  have n2: "2 \<le> length ps" using r(4) by (simp add: sentinels_ok_def)
  have "\<forall>s\<in>set (segments piece ps). ranks_get ranks (bytesToKey s) \<noteq> None"
  proof
    fix s assume "s \<in> set (segments piece ps)"
    then obtain j where j: "j < length ps - 1" "s = segments piece ps ! j"
      by (auto simp: in_set_conv_nth length_segments)
    then have "j + 1 < length ps" by arith
    with j(2) r(3) show "ranks_get ranks (bytesToKey s) \<noteq> None"
      by (simp add: nth_segments segments_ok_def)
  qed
  from lookup_parts_segments[OF this] obtain ts where
    ts: "lookup_parts ranks piece ps = Inr ts"
      "list_all2 (\<lambda>s t. ranks_get ranks (bytesToKey s) = Some t) (segments piece ps) ts"
    by blast
  have "BytePairEncoder_encode ranks piece = Inr ts"
    using False r(1) ts(1) by (simp add: BytePairEncoder_encode_def bytePairMerge_def)
  moreover have "concat (segments piece ps) = piece" using r(2) n2 by (rule concat_segments)
  ultimately show ?thesis using ts(2) by blast
qed


subsection \<open>The round trip\<close>

lemma within_limit_mono: "within_limit limit n \<Longrightarrow> m \<le> n \<Longrightarrow> within_limit limit m"
  by (simp add: within_limit_def split: option.splits)

lemma BytePairEncoder_encode_length_le:
  assumes "piece \<noteq> []" and "BytePairEncoder_encode ranks piece = Inr tokens"
  shows "length tokens \<le> length piece"
proof (cases "length piece = 1")
  case True
  with assms(2) show ?thesis
    by (auto simp: BytePairEncoder_encode_def Let_def split: option.splits)
next
  case False
  from bytePairMerge_run_length[of ranks piece] obtain ps n where
    r: "bytePairMerge_run ranks piece = Inr (ps, n)"
       "n + length ps = length (init_parts ranks piece)" "2 \<le> length ps" by blast
  from r(1) have "bytePairMerge ranks piece = Inr ps" by (simp add: bytePairMerge_def)
  with assms(2) False have "lookup_parts ranks piece ps = Inr tokens"
    by (simp add: BytePairEncoder_encode_def)
  then have "length tokens = length ps - 1" by (rule length_lookup_parts)
  moreover have "length ps \<le> length piece + 1"
    using r(2) assms(1) by (cases piece) (simp_all add: length_init_parts)
  ultimately show ?thesis by arith
qed

lemma encode_pieces_known:
  assumes "\<forall>b. ranks_get ranks (bytesToKey [b]) \<noteq> None"
    and "\<forall>m\<in>set ms. TextEncoder_encode m \<noteq> []"
    and "\<forall>m\<in>set ms. within_limit limit (length (TextEncoder_encode m))"
  shows "\<exists>segs ts. encode_pieces limit ranks ms = Inr ts \<and>
           concat segs = concat (map TextEncoder_encode ms) \<and>
           list_all2 (\<lambda>s t. ranks_get ranks (bytesToKey s) = Some t) segs ts"
  using assms(2,3)
proof (induction ms)
  case Nil
  have "encode_pieces limit ranks [] = Inr []" "concat [] = concat (map TextEncoder_encode [])"
    "list_all2 (\<lambda>s t. ranks_get ranks (bytesToKey s) = Some t) [] []" by simp_all
  then show ?case by blast
next
  case (Cons m ms)
  let ?piece = "TextEncoder_encode m"
  let ?Q = "\<lambda>s t. ranks_get ranks (bytesToKey s) = Some t"
  from Cons obtain segs2 ts2 where
    r2: "encode_pieces limit ranks ms = Inr ts2" "concat segs2 = concat (map TextEncoder_encode ms)"
      "list_all2 ?Q segs2 ts2" by auto
  have "\<exists>segs1 ts1.
      (case ranks_get ranks (bytesToKey ?piece) of
         Some directToken \<Rightarrow> Inr [directToken]
       | None \<Rightarrow> (case BytePairEncoder_encode ranks ?piece of
                    Inl e \<Rightarrow> Inl e
                  | Inr pieceTokens \<Rightarrow> spread limit pieceTokens)) = Inr ts1 \<and>
      concat segs1 = ?piece \<and> list_all2 ?Q segs1 ts1"
  proof (cases "ranks_get ranks (bytesToKey ?piece)")
    case None
    have ne: "?piece \<noteq> []" using Cons.prems by simp
    moreover have "\<forall>b\<in>set ?piece. ranks_get ranks (bytesToKey [b]) \<noteq> None"
      using assms(1) by simp
    ultimately obtain segs1 ts1 where
      k: "BytePairEncoder_encode ranks ?piece = Inr ts1" "concat segs1 = ?piece"
        "list_all2 ?Q segs1 ts1"
      using BytePairEncoder_encode_known[of ?piece ranks] by blast
    have "length ts1 \<le> length ?piece" using ne k(1) by (rule BytePairEncoder_encode_length_le)
    moreover have "within_limit limit (length ?piece)" using Cons.prems by simp
    ultimately have "within_limit limit (length ts1)" by (rule within_limit_mono[rotated])
    then have "spread limit ts1 = Inr ts1" by (simp add: spread_def)
    with None k(1) have "(case ranks_get ranks (bytesToKey ?piece) of
         Some directToken \<Rightarrow> Inr [directToken]
       | None \<Rightarrow> (case BytePairEncoder_encode ranks ?piece of
                    Inl e \<Rightarrow> Inl e
                  | Inr pieceTokens \<Rightarrow> spread limit pieceTokens)) = Inr ts1" by simp
    with k(2,3) show ?thesis by blast
  next
    case (Some d)
    then have "(case ranks_get ranks (bytesToKey ?piece) of
         Some directToken \<Rightarrow> Inr [directToken]
       | None \<Rightarrow> (case BytePairEncoder_encode ranks ?piece of
                    Inl e \<Rightarrow> Inl e
                  | Inr pieceTokens \<Rightarrow> spread limit pieceTokens)) = Inr [d]"
      "concat [?piece] = ?piece" "list_all2 ?Q [?piece] [d]" by simp_all
    then show ?thesis by blast
  qed
  then obtain segs1 ts1 where
    r1: "(case ranks_get ranks (bytesToKey ?piece) of
         Some directToken \<Rightarrow> Inr [directToken]
       | None \<Rightarrow> (case BytePairEncoder_encode ranks ?piece of
                    Inl e \<Rightarrow> Inl e
                  | Inr pieceTokens \<Rightarrow> spread limit pieceTokens)) = Inr ts1"
      "concat segs1 = ?piece" "list_all2 ?Q segs1 ts1" by blast
  have "encode_pieces limit ranks (m # ms) = Inr (ts1 @ ts2)"
    using r1(1) r2(1) by (simp add: Let_def)
  moreover have "concat (segs1 @ segs2) = concat (map TextEncoder_encode (m # ms))"
    using r1(2) r2(2) by simp
  moreover have "list_all2 ?Q (segs1 @ segs2) (ts1 @ ts2)"
    using r1(3) r2(3) by (rule list_all2_appendI)
  ultimately show ?case by blast
qed

lemma decode_tokens_segments:
  "list_all2 (\<lambda>s t. decoder enc t = Some s) segs ts \<Longrightarrow> decode_tokens enc ts = Inr segs"
  by (induction rule: list_all2_induct) simp_all

lemma decoder_of_rank:
  assumes d: "distinct (map snd entries)"
    and g: "ranks_get (rank_table_of entries) (bytesToKey s) = Some t"
  shows "map_of (rev (map (\<lambda>(bytes, r). (r, bytes)) entries)) t = Some s"
proof -
  let ?sw = "rev (map (\<lambda>(bytes, r). (r, bytes)) entries)"
  from g have "map_of entries s = Some t" by (simp add: ranks_get_rank_table_of)
  then have "(s, t) \<in> set entries" by (rule map_of_SomeD)
  then have m: "(t, s) \<in> set ?sw" by force
  have "map fst ?sw = rev (map snd entries)" by (simp add: rev_map comp_def case_prod_beta)
  then have "distinct (map fst ?sw)" using d by simp
  then show ?thesis using m by (rule map_of_is_SomeI)
qed

lemma code_points_eq_Nil: "code_points s = [] \<longleftrightarrow> s = []"
  by (induction s rule: code_points.induct) simp_all

lemma TextEncoder_encode_eq_Nil: "TextEncoder_encode s = [] \<longleftrightarrow> s = []"
proof -
  have "utf8_bytes cp \<noteq> []" for cp by (simp add: utf8_bytes_def)
  then have "TextEncoder_encode s = [] \<longleftrightarrow> code_points s = []"
    by (auto simp: TextEncoder_encode_def)
  then show ?thesis by (simp add: code_points_eq_Nil)
qed

text \<open>
  Where no spread call exceeds the host's limit, the round trip holds. Let the
  tokenizer be built from a rank table keyed by byte sequences that has every single
  byte and gives no two sequences the same rank, and let the matches of the pattern on
  \<open>s\<close> be non-empty and partition \<open>s\<close>. If the UTF-8 encoding of \<open>s\<close> decodes back to
  \<open>s\<close> and no match has more bytes than the limit, then \<^verbatim>\<open>encodeOrdinary(s)\<close>
  succeeds and \<^verbatim>\<open>decode\<close> of its tokens, under the default policy, is \<open>s\<close>.
\<close>

lemma encodeOrdinary_decode_within_limit:
  assumes "Encoding_new RegExp limit nm pat (rank_table_of entries) special = Inr enc"
    and "distinct (map snd entries)"
    and "\<forall>b. ranks_get (rank_table_of entries) (bytesToKey [b]) \<noteq> None"
    and "[] \<notin> set (pretokenize enc s)"
    and "concat (map TextEncoder_encode (pretokenize enc s)) = TextEncoder_encode s"
    and "TextDecoder_decode False (TextEncoder_encode s) = Some s"
    and "\<forall>m\<in>set (pretokenize enc s). within_limit limit (length (TextEncoder_encode m))"
  shows "\<exists>tokens. encodeOrdinary limit enc s = Inr tokens \<and> decode enc tokens Replace = Inr s"
proof -
  note f = Encoding_new_fields[OF assms(1)]
  have dec: "decoder enc = map_of (rev (map (\<lambda>(bytes, r). (r, bytes)) entries))"
    using f(4) by (simp add: build_decoder_rank_table_of)
  have "\<forall>m\<in>set (pretokenize enc s). TextEncoder_encode m \<noteq> []"
    using assms(4) by (auto simp: TextEncoder_encode_eq_Nil)
  from encode_pieces_known[OF assms(3) this assms(7)] obtain segs ts where
    r: "encode_pieces limit (rank_table_of entries) (pretokenize enc s) = Inr ts"
      "concat segs = concat (map TextEncoder_encode (pretokenize enc s))"
      "list_all2 (\<lambda>s t. ranks_get (rank_table_of entries) (bytesToKey s) = Some t) segs ts"
    by blast
  have e: "encodeOrdinary limit enc s = Inr ts" using r(1) by (simp add: encodeOrdinary_def f(1))
  have "list_all2 (\<lambda>s t. decoder enc t = Some s) segs ts"
    using r(3) by (rule list_all2_mono) (simp add: dec decoder_of_rank[OF assms(2)])
  then have "decode_tokens enc ts = Inr segs" by (rule decode_tokens_segments)
  then have "decodeBytes enc ts = Inr (TextEncoder_encode s)"
    using r(2) assms(5) by (simp add: decodeBytes_def)
  then have "decode enc ts Replace = Inr s" using assms(6) by (simp add: decode_def)
  with e show ?thesis by blast
qed

lemma rank_table_of_byte_entries:
  "rank_table_of (map (\<lambda>n. ([of_nat n], n)) [0..<256]) = byte_table"
  by (simp add: rank_table_of_def byte_table_def)

lemma length_concat_singletons:
  "\<forall>s\<in>set segs. length s = 1 \<Longrightarrow> length (concat segs) = length segs"
  by (induction segs) simp_all

lemma BytePairEncoder_encode_byte_table:
  assumes "piece \<noteq> []"
  shows "\<exists>ts. BytePairEncoder_encode byte_table piece = Inr ts \<and> length ts = length piece"
proof -
  have "\<forall>b\<in>set piece. ranks_get byte_table (bytesToKey [b]) \<noteq> None"
    by (simp add: byte_table_complete)
  from BytePairEncoder_encode_known[OF assms this] obtain segs ts where
    k: "BytePairEncoder_encode byte_table piece = Inr ts" "concat segs = piece"
      "list_all2 (\<lambda>s t. ranks_get byte_table (bytesToKey s) = Some t) segs ts" by blast
  have "\<forall>s\<in>set segs. length s = 1"
  proof
    fix s assume "s \<in> set segs"
    with k(3) obtain t where "ranks_get byte_table (bytesToKey s) = Some t"
      by (auto simp: list_all2_conv_all_nth in_set_conv_nth)
    then show "length s = 1"
      by (auto simp: byte_table_get split: list.splits)
  qed
  then have "length (concat segs) = length segs" by (rule length_concat_singletons)
  moreover have "length segs = length ts" using k(3) by (rule list_all2_lengthD)
  ultimately show ?thesis using k(1,2) by simp
qed

lemma encodeOrdinary_spread_RangeError:
  assumes "mergeableRanks enc = byte_table" and "pattern enc s = Some [s]"
    and "2 \<le> length (TextEncoder_encode s)"
    and "\<not> within_limit limit (length (TextEncoder_encode s))"
  shows "encodeOrdinary limit enc s = Inl RangeError"
proof -
  let ?piece = "TextEncoder_encode s"
  have ne: "?piece \<noteq> []" using assms(3) by auto
  then have "s \<noteq> []" by (simp add: TextEncoder_encode_eq_Nil)
  with assms(2) have pre: "pretokenize enc s = [s]" by (simp add: pretokenize_def)
  have direct: "ranks_get byte_table (bytesToKey ?piece) = None"
    using assms(3) by (auto simp: byte_table_get split: list.splits)
  from BytePairEncoder_encode_byte_table[OF ne] obtain ts where
    ts: "BytePairEncoder_encode byte_table ?piece = Inr ts" "length ts = length ?piece" by blast
  with assms(4) have "spread limit ts = Inl RangeError" by (simp add: spread_def)
  with direct ts(1) show ?thesis
    by (simp add: encodeOrdinary_def pre assms(1) Let_def)
qed

lemma code_points_replicate_a: "code_points (replicate n 0x61) = replicate n 0x61"
proof (induction n)
  case 0
  show ?case by simp
next
  case (Suc n)
  then show ?case
    by (cases n) (simp_all add: is_lead_def is_trail_def is_surrogate_def)
qed

lemma TextEncoder_encode_replicate_a: "TextEncoder_encode (replicate n 0x61) = replicate n 0x61"
proof -
  have "concat (replicate n [x]) = replicate n x" for x :: byte
    by (induction n) simp_all
  then show ?thesis
    by (simp add: TextEncoder_encode_def code_points_replicate_a utf8_bytes_def)
qed

lemma utf8_decode_replicate_a:
  "utf8_decode (replicate n 0x61) 0 0 0 0x80 0xBF = replicate n (Some 0x61)"
  by (induction n) simp_all

lemma TextDecoder_decode_replicate_a:
  "TextDecoder_decode False (replicate n 0x61) = Some (replicate n 0x61)"
proof -
  have "concat (replicate n [x]) = replicate n x" for x :: "16 word"
    by (induction n) simp_all
  then show ?thesis
    by (simp add: TextDecoder_decode_def utf8_decode_replicate_a utf16_units_def)
qed

text \<open>
  C2 fails on the code. The tokens of a piece that is not itself a key of the table are
  pushed by \<^verbatim>\<open>tokens.push(...pieceTokens)\<close>, one argument for each token, so a piece
  with more tokens than the host accepts arguments throws a \<^verbatim>\<open>RangeError\<close>. On the
  table of the 256 single bytes and with the pattern \<^verbatim>\<open>[^]+\<close>, the text of 200000
  letters \<^verbatim>\<open>a\<close> is one piece of 200000 tokens: its UTF-8 encoding decodes back to it,
  and on a host that accepts 65535 arguments \<^verbatim>\<open>encodeOrdinary\<close> returns no tokens to
  decode.
\<close>

theorem encodeOrdinary_long_piece_RangeError:
  "\<exists>enc. Encoding_new host_RegExp (Some 65535) [] (jsstr ''[^]+'') byte_table [] = Inr enc \<and>
     TextDecoder_decode False (TextEncoder_encode (replicate 200000 0x61)) =
       Some (replicate 200000 0x61) \<and>
     encodeOrdinary (Some 65535) enc (replicate 200000 0x61) = Inl RangeError"
proof -
  let ?L = "Some 65535 :: nat option"
  let ?s = "replicate 200000 0x61 :: jsstring"
  obtain enc where
    built: "Encoding_new host_RegExp ?L [] (jsstr ''[^]+'') byte_table [] = Inr enc"
    using Encoding_new_rank_table_of[where RegExp = host_RegExp and pat = "jsstr ''[^]+''"
        and limit = ?L and entries = "map (\<lambda>n. ([of_nat n], n)) [0..<256]" and special = "[]"
        and compiled = "\<lambda>t. if t = [] then None else Some [t]"]
    by (simp add: host_RegExp_any within_limit_def rank_table_of_byte_entries)
  note f = Encoding_new_fields[OF built]
  have pat: "pattern enc ?s = Some [?s]" by (simp add: host_pattern[OF built])
  have len: "length (TextEncoder_encode ?s) = 200000"
    by (simp add: TextEncoder_encode_replicate_a)
  have "encodeOrdinary ?L enc ?s = Inl RangeError"
    using f(1) pat by (rule encodeOrdinary_spread_RangeError) (simp_all add: len within_limit_def)
  moreover have "TextDecoder_decode False (TextEncoder_encode ?s) = Some ?s"
    by (simp only: TextEncoder_encode_replicate_a TextDecoder_decode_replicate_a)
  ultimately show ?thesis using built by blast
qed

end
